theory Spec2Isabelle
  imports Main "HOL-Library.Word"
begin

unbundle bit_operations_syntax

section \<open>The calendar of Go's \<^verbatim>\<open>time\<close> package\<close>

text \<open>
  The program works on \<^verbatim>\<open>time.Time\<close> values through \<^verbatim>\<open>Year\<close>, \<^verbatim>\<open>AddDate\<close>,
  \<^verbatim>\<open>After\<close>, \<^verbatim>\<open>Before\<close> and \<^verbatim>\<open>Equal\<close> only. The standard library is not part of
  the repository; it is modelled here for times in UTC, following the library's
  own algorithms (\<^verbatim>\<open>absDate\<close>, \<^verbatim>\<open>Date\<close>, \<^verbatim>\<open>daysSinceEpoch\<close>). A time is a day
  number, counted from 1 January of year 1 in the proleptic Gregorian calendar,
  and the nanoseconds elapsed since midnight of that day. Go's \<^verbatim>\<open>int\<close> has 64 bits;
  the counts and years of this program stay far from its bounds for every
  representable time, and are unbounded integers here.
\<close>

definition isLeap :: "int \<Rightarrow> bool" where
  "isLeap year = (year mod 4 = 0 \<and> (year mod 100 \<noteq> 0 \<or> year mod 400 = 0))"

text \<open>Days from 1 January of year 1 to 1 January of \<open>year\<close>.\<close>

definition daysSinceEpoch :: "int \<Rightarrow> int" where
  "daysSinceEpoch year =
     (let y = year - 1 in 365 * y + y div 4 - y div 100 + y div 400)"

text \<open>
  The first half of \<^verbatim>\<open>absDate\<close>: the year of a day number and the day within that
  year, found by cutting off cycles of 400, 100, 4 and 1 years. Go writes
  \<^verbatim>\<open>n -= n >> 2\<close> for the two places where the last day of a cycle gives a quotient
  of 4.
\<close>

definition absYear :: "int \<Rightarrow> int \<times> int" where
  "absYear d0 =
     (let n400 = d0 div 146097;
          d1 = d0 - 146097 * n400;
          q100 = d1 div 36524;
          n100 = q100 - q100 div 4;
          d2 = d1 - 36524 * n100;
          n4 = d2 div 1461;
          d3 = d2 - 1461 * n4;
          q1 = d3 div 365;
          n1 = q1 - q1 div 4;
          d4 = d3 - 365 * n1
      in (400 * n400 + 100 * n100 + 4 * n4 + n1 + 1, d4))"

text \<open>\<^verbatim>\<open>daysBefore[m]\<close>: days of a non-leap year before month \<open>m + 1\<close>.\<close>

definition daysBefore :: "int list" where
  "daysBefore = [0, 31, 59, 90, 120, 151, 181, 212, 243, 273, 304, 334, 365]"

text \<open>\<^verbatim>\<open>absDate\<close>: year, month (1 to 12) and day of the month of a day number.\<close>

definition absDate :: "int \<Rightarrow> int \<times> int \<times> int" where
  "absDate d =
     (let (year, yday) = absYear d in
      if isLeap year \<and> yday = 31 + 29 - 1 then (year, 2, 29)
      else
        let day = (if isLeap year \<and> yday > 31 + 29 - 1 then yday - 1 else yday);
            month = day div 31;
            end = daysBefore ! nat (month + 1);
            (month', begin) =
              (if day \<ge> end then (month + 1, end) else (month, daysBefore ! nat month))
        in (year, month' + 1, day - begin + 1))"

text \<open>
  The day number that \<^verbatim>\<open>Date\<close> computes: the month is normalised into the year
  (\<^verbatim>\<open>norm\<close>, a floor division), the day is added as it is, so a day beyond the end
  of the month runs into the following month.
\<close>

definition dateDays :: "int \<Rightarrow> int \<Rightarrow> int \<Rightarrow> int" where
  "dateDays year month day =
     (let m = month - 1;
          year' = year + m div 12;
          m' = m mod 12;
          d = daysSinceEpoch year' + daysBefore ! nat m';
          d' = (if isLeap year' \<and> m' + 1 \<ge> 3 then d + 1 else d)
      in d' + (day - 1))"

definition daysIn :: "int \<Rightarrow> int \<Rightarrow> int" where
  "daysIn month year =
     (if month = 2 \<and> isLeap year then 29
      else daysBefore ! nat month - daysBefore ! nat (month - 1))"

record Time =
  absDay :: int
  dayNsec :: nat

definition Date :: "int \<Rightarrow> int \<Rightarrow> int \<Rightarrow> nat \<Rightarrow> Time" where
  "Date year month day clock = \<lparr>absDay = dateDays year month day, dayNsec = clock\<rparr>"

definition Year :: "Time \<Rightarrow> int" where
  "Year t = fst (absDate (absDay t))"

definition Month :: "Time \<Rightarrow> int" where
  "Month t = fst (snd (absDate (absDay t)))"

definition Day :: "Time \<Rightarrow> int" where
  "Day t = snd (snd (absDate (absDay t)))"

text \<open>
  \<^verbatim>\<open>AddDate\<close> takes the date apart, adds, and lets \<^verbatim>\<open>Date\<close> normalise the sum; the
  time of day is kept.
\<close>

definition AddDate :: "Time \<Rightarrow> int \<Rightarrow> int \<Rightarrow> int \<Rightarrow> Time" where
  "AddDate t years months days =
     (let (year, month, day) = absDate (absDay t)
      in Date (year + years) (month + months) (day + days) (dayNsec t))"

definition After :: "Time \<Rightarrow> Time \<Rightarrow> bool" where
  "After t u = (absDay t > absDay u \<or> (absDay t = absDay u \<and> dayNsec t > dayNsec u))"

definition Before :: "Time \<Rightarrow> Time \<Rightarrow> bool" where
  "Before t u = (absDay t < absDay u \<or> (absDay t = absDay u \<and> dayNsec t < dayNsec u))"

definition Equal :: "Time \<Rightarrow> Time \<Rightarrow> bool" where
  "Equal t u = (absDay t = absDay u \<and> dayNsec t = dayNsec u)"

subsection \<open>The conversions agree\<close>

lemma div_step:
  fixes y k :: int
  assumes "0 < k"
  shows "(y + 1) div k = y div k + (if (y + 1) mod k = 0 then 1 else 0)"
proof (cases "(y + 1) mod k = 0")
  case True
  then obtain q where q: "y + 1 = k * q" by (auto simp: mod_eq_0_iff_dvd)
  have "y = k * (q - 1) + (k - 1)" using q by (simp add: algebra_simps)
  then have "y div k = q - 1"
    using assms by (intro int_div_pos_eq[where r = "k - 1"]) auto
  moreover have "(y + 1) div k = q" using q assms by simp
  ultimately show ?thesis using True by simp
next
  case False
  define r where "r = y mod k"
  have r: "0 \<le> r" "r < k" using assms by (simp_all add: r_def)
  have y: "y = k * (y div k) + r" by (simp add: r_def)
  have "r + 1 \<noteq> k"
  proof
    assume "r + 1 = k"
    then have "y + 1 = k * (y div k + 1)" using y by (simp add: algebra_simps)
    then have "(y + 1) mod k = 0" by (metis mod_mult_self1_is_0)
    with False show False by simp
  qed
  then have "r + 1 < k" using r by linarith
  moreover have "y + 1 = k * (y div k) + (r + 1)" using y by simp
  ultimately have "(y + 1) div k = y div k"
    using r by (intro int_div_pos_eq[where r = "r + 1"]) auto
  then show ?thesis using False by simp
qed

lemma dse_step: "daysSinceEpoch (y + 1) = daysSinceEpoch y + (if isLeap y then 366 else 365)"
proof -
  define A where "A = (y - 1) div 4"
  define B where "B = (y - 1) div 100"
  define C where "C = (y - 1) div 400"
  have a: "y div 4 = A + (if y mod 4 = 0 then 1 else 0)"
    using div_step[of 4 "y - 1"] by (simp add: A_def)
  have b: "y div 100 = B + (if y mod 100 = 0 then 1 else 0)"
    using div_step[of 100 "y - 1"] by (simp add: B_def)
  have c: "y div 400 = C + (if y mod 400 = 0 then 1 else 0)"
    using div_step[of 400 "y - 1"] by (simp add: C_def)
  have d: "y mod 400 = 0 \<Longrightarrow> y mod 100 = 0" by presburger
  have e: "y mod 100 = 0 \<Longrightarrow> y mod 4 = 0" by presburger
  have l: "daysSinceEpoch (y + 1) = 365 * y + y div 4 - y div 100 + y div 400"
    by (simp add: daysSinceEpoch_def)
  have r: "daysSinceEpoch y = 365 * (y - 1) + A - B + C"
    by (simp add: daysSinceEpoch_def Let_def A_def B_def C_def)
  consider (n4) "y mod 4 \<noteq> 0" | (n100) "y mod 4 = 0" "y mod 100 \<noteq> 0"
    | (n400) "y mod 100 = 0" "y mod 400 \<noteq> 0" | (y400) "y mod 400 = 0" by argo
  then show ?thesis
  proof cases
    case n4
    then have "y mod 100 \<noteq> 0" "y mod 400 \<noteq> 0" using d e by argo+
    with n4 have "y div 4 = A" "y div 100 = B" "y div 400 = C" "\<not> isLeap y"
      using a b c by (simp_all only: isLeap_def if_False add_0_right simp_thms)
    then show ?thesis using l r by simp
  next
    case n100
    then have "y mod 400 \<noteq> 0" using d by argo
    with n100 have "y div 4 = A + 1" "y div 100 = B" "y div 400 = C" "isLeap y"
      using a b c by (simp_all only: isLeap_def if_False if_True add_0_right simp_thms)
    then show ?thesis using l r by simp
  next
    case n400
    then have "y mod 4 = 0" using e by argo
    with n400 have "y div 4 = A + 1" "y div 100 = B + 1" "y div 400 = C" "\<not> isLeap y"
      using a b c by (simp_all only: isLeap_def if_False if_True add_0_right simp_thms)
    then show ?thesis using l r by simp
  next
    case y400
    then have "y mod 4 = 0" "y mod 100 = 0" using d e by argo+
    with y400 have "y div 4 = A + 1" "y div 100 = B + 1" "y div 400 = C + 1" "isLeap y"
      using a b c by (simp_all only: isLeap_def if_False if_True add_0_right simp_thms)
    then show ?thesis using l r by simp
  qed
qed

lemma cut_cycles:
  fixes r k :: int
  assumes k: "0 < k" and r0: "0 \<le> r" and r4: "r \<le> 4 * k"
  defines "n \<equiv> r div k - r div k div 4"
  shows "0 \<le> n" "n \<le> 3" "0 \<le> r - k * n" "r - k * n \<le> k"
    "n < 3 \<Longrightarrow> r - k * n < k" "r < 4 * k \<Longrightarrow> r - k * n < k"
proof -
  define q where "q = r div k"
  have q0: "0 \<le> q" using k r0 by (simp add: q_def pos_imp_zdiv_nonneg_iff)
  have "r div k \<le> (4 * k) div k" using r4 k by (intro zdiv_mono1) auto
  then have q4: "q \<le> 4" using k by (simp add: q_def)
  have m: "r = k * q + r mod k" by (simp add: q_def)
  have m0: "0 \<le> r mod k" and mk: "r mod k < k" using k by simp_all
  have n: "n = q - q div 4" by (simp add: n_def q_def)
  have "0 \<le> n \<and> n \<le> 3 \<and> 0 \<le> r - k * n \<and> r - k * n \<le> k
      \<and> (n < 3 \<longrightarrow> r - k * n < k) \<and> (r < 4 * k \<longrightarrow> r - k * n < k)"
  proof (cases "q = 4")
    case True
    then have "n = 3" using n by simp
    moreover have "r = k * 4 + r mod k" using m True by simp
    then have "4 * k \<le> r" using m0 by linarith
    then have "r = 4 * k" using r4 by linarith
    ultimately show ?thesis using k by simp
  next
    case False
    then have "q < 4" using q4 by linarith
    then have "q div 4 = 0" using q0 by (simp add: div_pos_pos_trivial)
    then have nq: "n = q" using n by simp
    have "r - k * n = r mod k" unfolding nq using m by linarith
    then show ?thesis using m0 mk nq q0 \<open>q < 4\<close> by simp
  qed
  then show "0 \<le> n" "n \<le> 3" "0 \<le> r - k * n" "r - k * n \<le> k"
    "n < 3 \<Longrightarrow> r - k * n < k" "r < 4 * k \<Longrightarrow> r - k * n < k" by blast+
qed

lemma absYear_sound:
  assumes "absYear d = (y, yd)"
  shows "daysSinceEpoch y + yd = d" and "0 \<le> yd" and "yd < (if isLeap y then 366 else 365)"
proof -
  define a where "a = d div 146097"
  define d1 where "d1 = d - 146097 * a"
  define b where "b = d1 div 36524 - d1 div 36524 div 4"
  define d2 where "d2 = d1 - 36524 * b"
  define c where "c = d2 div 1461"
  define d3 where "d3 = d2 - 1461 * c"
  define e where "e = d3 div 365 - d3 div 365 div 4"
  define d4 where "d4 = d3 - 365 * e"
  have y: "y = 400 * a + 100 * b + 4 * c + e + 1" and yd: "yd = d4"
    using assms unfolding absYear_def Let_def a_def d1_def b_def d2_def c_def d3_def e_def d4_def
    by simp_all
  have "d1 = d mod 146097" unfolding d1_def a_def by (simp add: minus_mult_div_eq_mod)
  then have d1: "0 \<le> d1" "d1 \<le> 4 * 36524" by simp_all
  note B = cut_cycles[of 36524 d1, OF _ d1, folded b_def, folded d2_def, simplified]
  have "d3 = d2 mod 1461" unfolding d3_def c_def by (simp add: minus_mult_div_eq_mod)
  then have d3: "0 \<le> d3" "d3 < 1461" by simp_all
  have c0: "0 \<le> c" using B(3) by (simp add: c_def pos_imp_zdiv_nonneg_iff)
  have "d2 div 1461 \<le> 36524 div 1461" using B(4) by (intro zdiv_mono1) auto
  then have c24: "c \<le> 24" by (simp add: c_def)
  have d3': "d3 \<le> 4 * 365" using d3 by simp
  note E = cut_cycles[of 365 d3, OF _ d3(1) d3', folded e_def, folded d4_def, simplified]
  have Y4: "(y - 1) div 4 = 100 * a + 25 * b + c"
    by (rule int_div_pos_eq[where r = e]) (use E y in auto)
  have Y100: "(y - 1) div 100 = 4 * a + b"
    by (rule int_div_pos_eq[where r = "4 * c + e"]) (use E c0 c24 y in auto)
  have Y400: "(y - 1) div 400 = a"
    by (rule int_div_pos_eq[where r = "100 * b + 4 * c + e"]) (use B E c0 c24 y in auto)
  have "daysSinceEpoch y = 146097 * a + 36524 * b + 1461 * c + 365 * e"
    unfolding daysSinceEpoch_def Let_def Y4 Y100 Y400 using y by simp
  then show "daysSinceEpoch y + yd = d"
    unfolding yd d4_def d3_def d2_def d1_def by simp
  show "0 \<le> yd" using E yd by simp
  show "yd < (if isLeap y then 366 else 365)"
  proof (cases "e = 3")
    case False
    then have e3: "e < 3" using E by linarith
    have "y mod 4 = e + 1"
      by (rule int_mod_pos_eq[where q = "100 * a + 25 * b + c"]) (use E e3 y in auto)
    then have "y mod 4 \<noteq> 0" using E by linarith
    then have "\<not> isLeap y" by (simp add: isLeap_def)
    then show ?thesis using E(5)[OF e3] yd by simp
  next
    case e3: True
    show ?thesis
    proof (cases "c = 24")
      case False
      then have c: "c < 24" using c24 by linarith
      have "y mod 4 = 0"
        by (rule int_mod_pos_eq[where q = "100 * a + 25 * b + c + 1"]) (use e3 y in auto)
      moreover have "y mod 100 = 4 * c + 4"
        by (rule int_mod_pos_eq[where q = "4 * a + b"]) (use e3 c c0 y in auto)
      then have "y mod 100 \<noteq> 0" using c0 by linarith
      ultimately have "isLeap y" by (simp add: isLeap_def)
      then show ?thesis using E yd by simp
    next
      case c: True
      show ?thesis
      proof (cases "b = 3")
        case False
        then have b3: "b < 3" using B by linarith
        have "y mod 400 = 100 * b + 100"
          by (rule int_mod_pos_eq[where q = a]) (use e3 c b3 B y in auto)
        then have "y mod 400 \<noteq> 0" using B by linarith
        moreover have "y mod 100 = 0"
          by (rule int_mod_pos_eq[where q = "4 * a + b + 1"]) (use e3 c y in auto)
        ultimately have "\<not> isLeap y" by (simp add: isLeap_def)
        moreover have "d2 < 36524" using B(5)[OF b3] .
        then have "d3 < 4 * 365" unfolding d3_def c by simp
        then have "d4 < 365" using E(6) by simp
        ultimately show ?thesis using yd by simp
      next
        case b3: True
        have "y mod 400 = 0"
          by (rule int_mod_pos_eq[where q = "a + 1"]) (use e3 c b3 y in auto)
        moreover have "y mod 4 = 0"
          by (rule int_mod_pos_eq[where q = "100 * a + 25 * b + c + 1"]) (use e3 y in auto)
        ultimately have "isLeap y" by (simp add: isLeap_def)
        then show ?thesis using E yd by simp
      qed
    qed
  qed
qed

lemma small_cases:
  fixes m :: int
  assumes "0 \<le> m" "m \<le> 11"
  shows "m = 0 \<or> m = 1 \<or> m = 2 \<or> m = 3 \<or> m = 4 \<or> m = 5 \<or> m = 6 \<or> m = 7 \<or> m = 8
      \<or> m = 9 \<or> m = 10 \<or> m = 11"
  using assms by presburger

lemma monthDay_sound:
  fixes day :: int
  assumes "0 \<le> day" "day < 365"
  defines "month \<equiv> day div 31"
  defines "e \<equiv> daysBefore ! nat (month + 1)"
  defines "m' \<equiv> (if day \<ge> e then month + 1 else month)"
  defines "begin \<equiv> (if day \<ge> e then e else daysBefore ! nat month)"
  shows "0 \<le> m' \<and> m' \<le> 11 \<and> begin = daysBefore ! nat m' \<and> begin \<le> day \<and> day < daysBefore ! nat (m' + 1)"
proof -
  have "0 \<le> month" using assms(1) by (simp add: month_def pos_imp_zdiv_nonneg_iff)
  moreover have "day div 31 \<le> 364 div 31" using assms(2) by (intro zdiv_mono1) auto
  then have "month \<le> 11" by (simp add: month_def)
  ultimately have "month = 0 \<or> month = 1 \<or> month = 2 \<or> month = 3 \<or> month = 4 \<or> month = 5
     \<or> month = 6 \<or> month = 7 \<or> month = 8 \<or> month = 9 \<or> month = 10 \<or> month = 11"
    by (rule small_cases)
  moreover have "31 * month \<le> day" "day < 31 * month + 31"
    using div_mult_mod_eq[of day 31] pos_mod_bound[of 31 day] pos_mod_sign[of 31 day]
    unfolding month_def by linarith+
  ultimately show ?thesis
    unfolding m'_def begin_def e_def using assms(2)
    by (elim disjE) (simp_all add: daysBefore_def)
qed

lemma dateDays_norm:
  assumes "1 \<le> m" "m \<le> 12"
  shows "dateDays y m dd =
    daysSinceEpoch y + daysBefore ! nat (m - 1) + (if isLeap y \<and> 3 \<le> m then 1 else 0) + dd - 1"
proof -
  have "(m - 1) div 12 = 0" "(m - 1) mod 12 = m - 1"
    using assms by (simp_all add: div_pos_pos_trivial mod_pos_pos_trivial)
  then show ?thesis unfolding dateDays_def Let_def by simp
qed

lemma absDate_sound:
  assumes "absDate d = (y, m, dd)"
  shows "1 \<le> m" and "m \<le> 12" and "1 \<le> dd" and "dd \<le> daysIn m y" and "dateDays y m dd = d"
proof -
  obtain yd where ay: "absYear d = (y, yd)"
    using assms unfolding absDate_def Let_def by (auto split: prod.splits if_splits)
  note Y = absYear_sound[OF ay]
  have "1 \<le> m \<and> m \<le> 12 \<and> 1 \<le> dd \<and> dd \<le> daysIn m y \<and> dateDays y m dd = d"
  proof (cases "isLeap y \<and> yd = 31 + 29 - 1")
    case True
    then have "m = 2" "dd = 29" using assms ay unfolding absDate_def Let_def by simp_all
    then show ?thesis using True Y(1) by (simp add: dateDays_norm daysBefore_def daysIn_def)
  next
    case False
    define day where "day = (if isLeap y \<and> yd > 31 + 29 - 1 then yd - 1 else yd)"
    define month where "month = day div 31"
    define e where "e = daysBefore ! nat (month + 1)"
    define m' where "m' = (if day \<ge> e then month + 1 else month)"
    define bgn where "bgn = (if day \<ge> e then e else daysBefore ! nat month)"
    have "absDate d = (case (if day \<ge> e then (month + 1, e) else (month, daysBefore ! nat month))
        of (month', b) \<Rightarrow> (y, month' + 1, day - b + 1))"
      by (simp only: absDate_def ay prod.case Let_def day_def month_def e_def False if_False)
    also have "\<dots> = (y, m' + 1, day - bgn + 1)"
      by (cases "day \<ge> e") (simp_all only: m'_def bgn_def if_True if_False prod.case)
    finally have m: "m = m' + 1" and dd: "dd = day - bgn + 1"
      using assms by simp_all
    have day: "0 \<le> day" "day < 365" using Y False unfolding day_def by (auto split: if_splits)
    from monthDay_sound[OF day, folded month_def, folded e_def, folded m'_def bgn_def]
    have M: "0 \<le> m'" "m' \<le> 11" "bgn = daysBefore ! nat m'" "bgn \<le> day"
      "day < daysBefore ! nat (m' + 1)" by simp_all
    have adj: "(isLeap y \<and> 3 \<le> m) = (isLeap y \<and> yd > 59)" "isLeap y \<Longrightarrow> m = 2 \<Longrightarrow> day < 59"
      using small_cases[OF M(1,2)] M(3,4,5) False unfolding m day_def
      by (elim disjE; simp add: daysBefore_def split: if_splits)+
    have m12: "1 \<le> m" "m \<le> 12" using M(1,2) m by simp_all
    have "dateDays y m dd = daysSinceEpoch y + (if isLeap y \<and> yd > 59 then 1 else 0) + day"
      unfolding dateDays_norm[OF m12] adj(1) unfolding m dd M(3) by simp
    also have "\<dots> = d" using Y(1) unfolding day_def by simp
    finally have D: "dateDays y m dd = d" .
    have "dd \<le> daysIn m y"
    proof (cases "m = 2 \<and> isLeap y")
      case True
      then have "m' = 1" using m by simp
      then show ?thesis using adj(2) True dd M(3) by (simp add: daysIn_def daysBefore_def)
    next
      case False
      then have "daysIn m y = daysBefore ! nat (m' + 1) - daysBefore ! nat m'"
        unfolding daysIn_def m by auto
      then show ?thesis using M(3,5) dd by simp
    qed
    then show ?thesis using m12 D dd M(4) by simp
  qed
  then show "1 \<le> m" and "m \<le> 12" and "1 \<le> dd" and "dd \<le> daysIn m y" and "dateDays y m dd = d"
    by blast+
qed

lemma dateDays_day: "dateDays y m (d + k) = dateDays y m d + k"
  unfolding dateDays_def Let_def by simp

lemma dateDays_year: "dateDays (y + k) m d = dateDays y (m + 12 * k) d"
proof -
  have e: "m + 12 * k - 1 = (m - 1) + 12 * k" by simp
  have "(m + 12 * k - 1) div 12 = (m - 1) div 12 + k" "(m + 12 * k - 1) mod 12 = (m - 1) mod 12"
    unfolding e by simp_all
  then show ?thesis unfolding dateDays_def Let_def by (simp add: algebra_simps)
qed

lemma dateDays_month_step:
  "dateDays y m d + 28 \<le> dateDays y (m + 1) d" "dateDays y (m + 1) d \<le> dateDays y m d + 31"
proof -
  define q where "q = (m - 1) div 12"
  define r where "r = (m - 1) mod 12"
  have r: "0 \<le> r" "r \<le> 11" unfolding r_def by simp_all
  have m: "m - 1 = 12 * q + r" unfolding q_def r_def by simp
  have "dateDays y m d + 28 \<le> dateDays y (m + 1) d \<and> dateDays y (m + 1) d \<le> dateDays y m d + 31"
  proof (cases "r = 11")
    case True
    have "m = 12 * (q + 1) + 0" using m True by simp
    then have "m div 12 = q + 1" "m mod 12 = 0" by simp_all
    moreover have "daysSinceEpoch (y + (q + 1)) =
        daysSinceEpoch (y + q) + (if isLeap (y + q) then 366 else 365)"
      using dse_step[of "y + q"] by (simp add: add.assoc)
    ultimately show ?thesis
      unfolding dateDays_def Let_def using True
      by (simp add: q_def[symmetric] r_def[symmetric] daysBefore_def)
  next
    case False
    then have r10: "r \<le> 10" using r by linarith
    have "m = 12 * q + (r + 1)" using m by simp
    then have "m div 12 = q" "m mod 12 = r + 1"
      using r r10 by (auto intro: int_div_pos_eq int_mod_pos_eq)
    moreover have "r = 0 \<or> r = 1 \<or> r = 2 \<or> r = 3 \<or> r = 4 \<or> r = 5 \<or> r = 6 \<or> r = 7 \<or> r = 8
      \<or> r = 9 \<or> r = 10" using r r10 small_cases[of r] False by blast
    ultimately show ?thesis
      unfolding dateDays_def Let_def
      by (elim disjE) (simp_all add: q_def[symmetric] r_def[symmetric] daysBefore_def)
  qed
  then show "dateDays y m d + 28 \<le> dateDays y (m + 1) d" "dateDays y (m + 1) d \<le> dateDays y m d + 31"
    by blast+
qed

lemma dateDays_month_mono:
  assumes "j < k"
  shows "dateDays y (m + j) d < dateDays y (m + k) d"
proof -
  have "dateDays y (m + j) d < dateDays y (m + j + 1 + int n) d" for n
  proof (induction n)
    case 0
    show ?case using dateDays_month_step(1)[of y "m + j" d] by simp
  next
    case (Suc n)
    show ?case using Suc dateDays_month_step(1)[of y "m + j + 1 + int n" d]
      by (simp add: algebra_simps)
  qed
  from this[of "nat (k - j - 1)"] show ?thesis using assms by (simp add: algebra_simps)
qed

lemma AddDate_days: "AddDate t 0 0 k = t\<lparr>absDay := absDay t + k\<rparr>"
proof -
  obtain y m d where a: "absDate (absDay t) = (y, m, d)" by (cases "absDate (absDay t)") auto
  show ?thesis
    unfolding AddDate_def a Date_def using absDate_sound(5)[OF a]
    by (simp add: dateDays_day)
qed

lemma AddDate_zero: "AddDate t 0 0 0 = t"
  by (simp add: AddDate_days)

lemma AddDate_nsec: "dayNsec (AddDate t y m d) = dayNsec t"
  unfolding AddDate_def Date_def by (simp split: prod.splits)

lemma AddDate_month_mono: "j < k \<Longrightarrow> absDay (AddDate t 0 j 0) < absDay (AddDate t 0 k 0)"
  unfolding AddDate_def Date_def by (simp split: prod.splits add: dateDays_month_mono)

lemma AddDate_year_mono: "j < k \<Longrightarrow> absDay (AddDate t j 0 0) < absDay (AddDate t k 0 0)"
  unfolding AddDate_def Date_def
  by (simp split: prod.splits add: dateDays_year dateDays_month_mono)

lemma AddDate_le_step:
  assumes "Before (AddDate t y m d) e \<or> Equal (AddDate t y m d) e"
    and "absDay (AddDate t y m d) < absDay (AddDate t y' m' d')"
  shows "nat (absDay e + 1 - absDay (AddDate t y' m' d'))
       < nat (absDay e + 1 - absDay (AddDate t y m d))"
  using assms unfolding Before_def Equal_def by auto

section \<open>Parsing the format: \<^verbatim>\<open>datediff.go\<close>\<close>

type_synonym DiffMode = "8 word"

definition monthsInYear :: int where "monthsInYear = 12"
definition daysInWeek :: int where "daysInWeek = 7"

text \<open>\<^verbatim>\<open>ModeYears DiffMode = 1 << (8 - 1 - iota)\<close>, with \<^verbatim>\<open>iota\<close> running from 0 to 3.\<close>

definition ModeYears :: DiffMode where "ModeYears = push_bit (8 - 1 - 0) 1"
definition ModeMonths :: DiffMode where "ModeMonths = push_bit (8 - 1 - 1) 1"
definition ModeWeeks :: DiffMode where "ModeWeeks = push_bit (8 - 1 - 2) 1"
definition ModeDays :: DiffMode where "ModeDays = push_bit (8 - 1 - 3) 1"

text \<open>
  The errors the package returns, and the run-time panic of an index beyond the
  end of a string, which is no returned error but ends the call all the same.
  \<^verbatim>\<open>UnknownVerb\<close> carries what the message \<^verbatim>\<open>format %q has unknown verb %c\<close> prints.
\<close>

datatype error =
    ErrStartIsAfterEnd
  | ErrUndefinedDiffMode
  | UnknownVerb string char
  | PanicIndexOutOfRange

text \<open>The inner loop of \<^verbatim>\<open>unmarshal\<close>: skip to the next \<^verbatim>\<open>%\<close> or to the end.\<close>

function skipLiteral :: "string \<Rightarrow> nat \<Rightarrow> nat" where
  "skipLiteral rawFmt i =
     (if i < length rawFmt \<and> rawFmt ! i \<noteq> CHR ''%'' then skipLiteral rawFmt (i + 1) else i)"
  by pat_completeness auto
termination
  by (relation "measure (\<lambda>(rawFmt, i). length rawFmt - i)") auto

declare skipLiteral.simps [simp del]

lemma skipLiteral_ge: "i \<le> skipLiteral rawFmt i"
proof (induction rawFmt i rule: skipLiteral.induct)
  case (1 rawFmt i)
  show ?case
  proof (cases "i < length rawFmt \<and> rawFmt ! i \<noteq> CHR ''%''")
    case True
    then have "skipLiteral rawFmt i = skipLiteral rawFmt (i + 1)"
      by (subst skipLiteral.simps) simp
    then show ?thesis using 1[OF True] by simp
  next
    case False
    then have "skipLiteral rawFmt i = i" by (subst skipLiteral.simps) auto
    then show ?thesis by simp
  qed
qed

text \<open>
  The outer loop. After \<^verbatim>\<open>i++\<close> the byte \<^verbatim>\<open>rawFormat[i]\<close> is read with no test of
  \<^verbatim>\<open>i\<close> against the length: past the end, Go panics.
\<close>

function unmarshalLoop :: "string \<Rightarrow> nat \<Rightarrow> DiffMode \<Rightarrow> error + DiffMode" where
  "unmarshalLoop rawFmt i md =
     (if i < length rawFmt then
        (let j = skipLiteral rawFmt i in
         if j \<ge> length rawFmt then Inr md
         else
           let k = j + 1 in
           if k \<ge> length rawFmt then Inl PanicIndexOutOfRange
           else
             let c = rawFmt ! k in
             if c = CHR ''Y'' \<or> c = CHR ''y'' then unmarshalLoop rawFmt k (md OR ModeYears)
             else if c = CHR ''M'' \<or> c = CHR ''m'' then unmarshalLoop rawFmt k (md OR ModeMonths)
             else if c = CHR ''W'' \<or> c = CHR ''w'' then unmarshalLoop rawFmt k (md OR ModeWeeks)
             else if c = CHR ''D'' \<or> c = CHR ''d'' then unmarshalLoop rawFmt k (md OR ModeDays)
             else Inl (UnknownVerb rawFmt c))
      else Inr md)"
  by pat_completeness auto
termination
proof (relation "measure (\<lambda>(rawFmt, i, md). length rawFmt - i)")
  show "wf (measure (\<lambda>(rawFmt, i, md). length rawFmt - i))" by simp
next
  fix rawFmt :: string and i :: nat and md :: DiffMode and x xa
  assume "i < length rawFmt" "x = skipLiteral rawFmt i" "\<not> length rawFmt \<le> x" "xa = x + 1"
    "\<not> length rawFmt \<le> xa"
  then have "i < xa" "xa < length rawFmt" using skipLiteral_ge[of i rawFmt] by simp_all
  then have "length rawFmt - xa < length rawFmt - i" by simp
  then show "((rawFmt, xa, md OR ModeYears), rawFmt, i, md) \<in> measure (\<lambda>(rawFmt, i, md). length rawFmt - i)"
    "((rawFmt, xa, md OR ModeMonths), rawFmt, i, md) \<in> measure (\<lambda>(rawFmt, i, md). length rawFmt - i)"
    "((rawFmt, xa, md OR ModeWeeks), rawFmt, i, md) \<in> measure (\<lambda>(rawFmt, i, md). length rawFmt - i)"
    "((rawFmt, xa, md OR ModeDays), rawFmt, i, md) \<in> measure (\<lambda>(rawFmt, i, md). length rawFmt - i)"
    by simp_all
qed

declare unmarshalLoop.simps [simp del]

definition unmarshal :: "string \<Rightarrow> error + DiffMode" where
  "unmarshal rawFmt =
     (case unmarshalLoop rawFmt 0 0 of
        Inl e \<Rightarrow> Inl e
      | Inr md \<Rightarrow> if md = 0 then Inl ErrUndefinedDiffMode else Inr md)"

section \<open>The difference of two dates\<close>

record Diff =
  Years :: int
  Months :: int
  Weeks :: int
  Days :: int
  rawFormat :: string
  mode :: DiffMode

definition fullYearsDiff :: "Time \<Rightarrow> Time \<Rightarrow> int" where
  "fullYearsDiff start end =
     (let years = Year end - Year start
      in if After (AddDate start years 0 0) end then years - 1 else years)"

function fullMonthsLoop :: "Time \<Rightarrow> Time \<Rightarrow> int \<Rightarrow> int" where
  "fullMonthsLoop start end months =
     (if Before (AddDate start 0 (months + 1) 0) end \<or> Equal (AddDate start 0 (months + 1) 0) end
      then fullMonthsLoop start end (months + 1) else months)"
  by pat_completeness auto
termination
proof (relation "measure (\<lambda>(start, e, months). nat (absDay e + 1 - absDay (AddDate start 0 (months + 1) 0)))")
  show "wf (measure (\<lambda>(start, e, months). nat (absDay e + 1 - absDay (AddDate start 0 (months + 1) 0))))"
    by simp
next
  fix start e :: Time and months :: int
  assume "Before (AddDate start 0 (months + 1) 0) e \<or> Equal (AddDate start 0 (months + 1) 0) e"
  then show "((start, e, months + 1), (start, e, months))
      \<in> measure (\<lambda>(start, e, months). nat (absDay e + 1 - absDay (AddDate start 0 (months + 1) 0)))"
    using AddDate_le_step[of start 0 "months + 1" 0 e 0 "months + 1 + 1" 0]
      AddDate_month_mono[of "months + 1" "months + 1 + 1" start]
    by simp
qed

declare fullMonthsLoop.simps [simp del]

definition fullMonthsDiff :: "Time \<Rightarrow> Time \<Rightarrow> int" where
  "fullMonthsDiff start end = fullMonthsLoop start end 0"

function fullWeeksLoop :: "Time \<Rightarrow> Time \<Rightarrow> int \<Rightarrow> int \<Rightarrow> int" where
  "fullWeeksLoop start end weeks days =
     (if Before (AddDate start 0 0 days) end \<or> Equal (AddDate start 0 0 days) end
      then fullWeeksLoop start end (weeks + 1) (days + daysInWeek) else weeks)"
  by pat_completeness auto
termination
proof (relation "measure (\<lambda>(start, e, weeks, days). nat (absDay e + 1 - absDay (AddDate start 0 0 days)))")
  show "wf (measure (\<lambda>(start, e, weeks, days). nat (absDay e + 1 - absDay (AddDate start 0 0 days))))"
    by simp
next
  fix start e :: Time and weeks days :: int
  assume "Before (AddDate start 0 0 days) e \<or> Equal (AddDate start 0 0 days) e"
  then show "((start, e, weeks + 1, days + daysInWeek), (start, e, weeks, days))
      \<in> measure (\<lambda>(start, e, weeks, days). nat (absDay e + 1 - absDay (AddDate start 0 0 days)))"
    using AddDate_le_step[of start 0 0 days e 0 0 "days + daysInWeek"]
    by (simp add: AddDate_days daysInWeek_def)
qed

declare fullWeeksLoop.simps [simp del]

definition fullWeeksDiff :: "Time \<Rightarrow> Time \<Rightarrow> int" where
  "fullWeeksDiff start end = fullWeeksLoop start end 0 daysInWeek"

function fullDaysLoop :: "Time \<Rightarrow> Time \<Rightarrow> int \<Rightarrow> int" where
  "fullDaysLoop start end days =
     (if Before (AddDate start 0 0 (days + 1)) end \<or> Equal (AddDate start 0 0 (days + 1)) end
      then fullDaysLoop start end (days + 1) else days)"
  by pat_completeness auto
termination
proof (relation "measure (\<lambda>(start, e, days). nat (absDay e + 1 - absDay (AddDate start 0 0 (days + 1))))")
  show "wf (measure (\<lambda>(start, e, days). nat (absDay e + 1 - absDay (AddDate start 0 0 (days + 1)))))"
    by simp
next
  fix start e :: Time and days :: int
  assume "Before (AddDate start 0 0 (days + 1)) e \<or> Equal (AddDate start 0 0 (days + 1)) e"
  then show "((start, e, days + 1), (start, e, days))
      \<in> measure (\<lambda>(start, e, days). nat (absDay e + 1 - absDay (AddDate start 0 0 (days + 1))))"
    using AddDate_le_step[of start 0 0 "days + 1" e 0 0 "days + 1 + 1"]
    by (simp add: AddDate_days)
qed

declare fullDaysLoop.simps [simp del]

definition fullDaysDiff :: "Time \<Rightarrow> Time \<Rightarrow> int" where
  "fullDaysDiff start end = fullDaysLoop start end 0"

text \<open>
  \<^verbatim>\<open>newDiff\<close> updates \<^verbatim>\<open>diff\<close> and moves \<^verbatim>\<open>start\<close> forward unit by unit; each step
  below returns the pair of both.
\<close>

definition newDiff :: "Time \<Rightarrow> Time \<Rightarrow> DiffMode \<Rightarrow> Diff" where
  "newDiff start end md =
     (let diff = \<lparr>Years = 0, Months = 0, Weeks = 0, Days = 0, rawFormat = [], mode = md\<rparr>;
          (diff, start) =
            (if md AND ModeYears \<noteq> 0 then
               let diff = diff\<lparr>Years := fullYearsDiff start end\<rparr>
               in (diff, AddDate start (Years diff) 0 0)
             else (diff, start));
          (diff, start) =
            (if md AND ModeMonths \<noteq> 0 then
               let years = (if md AND ModeYears = 0 then fullYearsDiff start end else 0);
                   months = fullMonthsDiff (AddDate start years 0 0) end;
                   diff = diff\<lparr>Months := years * monthsInYear + months\<rparr>
               in (diff, AddDate start 0 (Months diff) 0)
             else (diff, start));
          (diff, start) =
            (if md AND ModeWeeks \<noteq> 0 then
               let diff = diff\<lparr>Weeks := fullWeeksDiff start end\<rparr>
               in (diff, AddDate start 0 0 (Weeks diff * daysInWeek))
             else (diff, start));
          diff = (if md AND ModeDays \<noteq> 0 then diff\<lparr>Days := fullDaysDiff start end\<rparr> else diff)
      in diff)"

definition NewDiff :: "Time \<Rightarrow> Time \<Rightarrow> string \<Rightarrow> error + Diff" where
  "NewDiff start end rawFmt =
     (if After start end then Inl ErrStartIsAfterEnd
      else case unmarshal rawFmt of
             Inl err \<Rightarrow> Inl err
           | Inr md \<Rightarrow> Inr ((newDiff start end md)\<lparr>rawFormat := rawFmt\<rparr>))"

definition NewDiffWithMode :: "Time \<Rightarrow> Time \<Rightarrow> DiffMode \<Rightarrow> error + Diff" where
  "NewDiffWithMode start end md =
     (if After start end then Inl ErrStartIsAfterEnd else Inr (newDiff start end md))"

text \<open>\<^verbatim>\<open>Diff.Equal\<close>.\<close>

definition EqualDiff :: "Diff \<Rightarrow> Diff \<Rightarrow> bool" where
  "EqualDiff d other =
     (Years d = Years other \<and> Months d = Months other \<and> Weeks d = Weeks other \<and> Days d = Days other)"

text \<open>
  The cursor of \<^verbatim>\<open>newDiff\<close> after each of its steps, and the months it reports:
  names for the intermediate values of \<^verbatim>\<open>start\<close>, used to state what \<^verbatim>\<open>newDiff\<close>
  computes.
\<close>

definition afterYears :: "Time \<Rightarrow> Time \<Rightarrow> DiffMode \<Rightarrow> Time" where
  "afterYears start e md =
     (if md AND ModeYears \<noteq> 0 then AddDate start (fullYearsDiff start e) 0 0 else start)"

definition monthsCount :: "Time \<Rightarrow> Time \<Rightarrow> DiffMode \<Rightarrow> int" where
  "monthsCount start e md =
     (let c = afterYears start e md;
          years = (if md AND ModeYears = 0 then fullYearsDiff c e else 0)
      in years * monthsInYear + fullMonthsDiff (AddDate c years 0 0) e)"

definition afterMonths :: "Time \<Rightarrow> Time \<Rightarrow> DiffMode \<Rightarrow> Time" where
  "afterMonths start e md =
     (if md AND ModeMonths \<noteq> 0
      then AddDate (afterYears start e md) 0 (monthsCount start e md) 0
      else afterYears start e md)"

definition afterWeeks :: "Time \<Rightarrow> Time \<Rightarrow> DiffMode \<Rightarrow> Time" where
  "afterWeeks start e md =
     (if md AND ModeWeeks \<noteq> 0
      then AddDate (afterMonths start e md) 0 0 (fullWeeksDiff (afterMonths start e md) e * daysInWeek)
      else afterMonths start e md)"

section \<open>Strings and numbers of the Go library\<close>

text \<open>\<^verbatim>\<open>strings.HasPrefix\<close>, \<^verbatim>\<open>strings.Contains\<close> and \<^verbatim>\<open>strings.ReplaceAll\<close> on byte strings.\<close>

definition HasPrefix :: "string \<Rightarrow> string \<Rightarrow> bool" where
  "HasPrefix s pre = (length s \<ge> length pre \<and> take (length pre) s = pre)"

fun Contains :: "string \<Rightarrow> string \<Rightarrow> bool" where
  "Contains [] substr = (substr = [])"
| "Contains (c # cs) substr = (HasPrefix (c # cs) substr \<or> Contains cs substr)"

text \<open>
  \<^verbatim>\<open>ReplaceAll\<close> replaces the non-overlapping occurrences of \<^verbatim>\<open>old\<close> from the left.
  For an empty \<^verbatim>\<open>old\<close> Go inserts \<^verbatim>\<open>new\<close> before every rune and at the end; the
  equation below does so for one-byte runes. The program never passes an empty
  \<^verbatim>\<open>old\<close>.
\<close>

function ReplaceAll :: "string \<Rightarrow> string \<Rightarrow> string \<Rightarrow> string" where
  "ReplaceAll s old new =
     (if old = [] then new @ concat (map (\<lambda>c. c # new) s)
      else if s = [] then []
      else if HasPrefix s old then new @ ReplaceAll (drop (length old) s) old new
      else hd s # ReplaceAll (tl s) old new)"
  by pat_completeness auto
termination
  by (relation "measure (\<lambda>(s, old, new). length s)") (auto simp: HasPrefix_def)

declare ReplaceAll.simps [simp del]

text \<open>\<^verbatim>\<open>strconv.Itoa\<close>, which is also what the verb \<^verbatim>\<open>%d\<close> of \<^verbatim>\<open>Sprintf\<close> prints.\<close>

definition digitChar :: "nat \<Rightarrow> char" where
  "digitChar n = char_of (of_char CHR ''0'' + n)"

function natDigits :: "nat \<Rightarrow> string" where
  "natDigits n = (if n < 10 then [digitChar n] else natDigits (n div 10) @ [digitChar (n mod 10)])"
  by pat_completeness auto
termination
  by (relation "measure id") auto

declare natDigits.simps [simp del]

definition Itoa :: "int \<Rightarrow> string" where
  "Itoa n = (if n < 0 then CHR ''-'' # natDigits (nat (- n)) else natDigits (nat n))"

text \<open>\<^verbatim>\<open>unicode.IsUpper\<close> on a rune below 256 (the rune of one byte).\<close>

definition IsUpper :: "char \<Rightarrow> bool" where
  "IsUpper c =
     (let r = (of_char c :: nat)
      in (65 \<le> r \<and> r \<le> 90) \<or> (192 \<le> r \<and> r \<le> 214) \<or> (216 \<le> r \<and> r \<le> 222))"

section \<open>Rendering: \<^verbatim>\<open>format.go\<close>\<close>

text \<open>The entries of the map \<^verbatim>\<open>formatUnits\<close>, in the order of the source text.\<close>

definition formatUnits :: "(string \<times> string) list" where
  "formatUnits =
     [(''%Y'', ''year''), (''%y'', ''year''), (''%M'', ''month''), (''%m'', ''month''),
      (''%W'', ''week''), (''%w'', ''week''), (''%D'', ''day''), (''%d'', ''day'')]"

text \<open>
  \<^verbatim>\<open>formatNoun\<close> prints with the format \<^verbatim>\<open>"%d %s"\<close>, to which it has appended
  \<^verbatim>\<open>"s"\<close> unless \<open>n = 1\<close>.
\<close>

definition formatNoun :: "int \<Rightarrow> string \<Rightarrow> string" where
  "formatNoun n s = Itoa n @ '' '' @ s @ (if n \<noteq> 1 then ''s'' else [])"

definition verbReplace :: "string \<Rightarrow> int \<Rightarrow> string \<Rightarrow> string \<Rightarrow> string" where
  "verbReplace s n verb unit =
     (let replacement = (if IsUpper (verb ! 1) then formatNoun n unit else Itoa n)
      in ReplaceAll s verb replacement)"

definition zeroVerbReplace :: "string \<Rightarrow> string \<Rightarrow> string" where
  "zeroVerbReplace s verb = ReplaceAll (ReplaceAll s ('' '' @ verb) []) verb []"

text \<open>
  \<^verbatim>\<open>frmt\<close> ranges over the map \<^verbatim>\<open>formatUnits\<close>. Go leaves the order of a map
  iteration open and varies it from run to run, so the order is an argument here:
  a list of the entries visited, one after the other. The callback \<^verbatim>\<open>replace\<close>
  of the source updates the variable \<^verbatim>\<open>result\<close> of its caller; here it maps the
  old value of \<^verbatim>\<open>result\<close> to the new one.
\<close>

definition unitCount :: "Diff \<Rightarrow> string \<Rightarrow> int" where
  "unitCount diff unit =
     (if unit = ''year'' then Years diff
      else if unit = ''month'' then Months diff
      else if unit = ''week'' then Weeks diff
      else if unit = ''day'' then Days diff
      else 0)"

fun frmt :: "(string \<times> string) list \<Rightarrow> Diff \<Rightarrow> string
    \<Rightarrow> (int \<Rightarrow> string \<Rightarrow> string \<Rightarrow> string \<Rightarrow> string) \<Rightarrow> string \<Rightarrow> string" where
  "frmt [] diff rawFmt replace result = result"
| "frmt ((verb, unit) # rest) diff rawFmt replace result =
     (if Contains rawFmt verb
      then frmt rest diff rawFmt replace (replace (unitCount diff unit) verb unit result)
      else frmt rest diff rawFmt replace result)"

definition iterationOrder :: "(string \<times> string) list \<Rightarrow> bool" where
  "iterationOrder order = (distinct order \<and> set order = set formatUnits)"

definition format :: "(string \<times> string) list \<Rightarrow> Diff \<Rightarrow> string \<Rightarrow> string" where
  "format order diff rawFmt =
     frmt order diff rawFmt
       (\<lambda>n verb unit result.
          if n = 0 then zeroVerbReplace result verb else verbReplace result n verb unit)
       rawFmt"

definition formatWithZeros :: "(string \<times> string) list \<Rightarrow> Diff \<Rightarrow> string \<Rightarrow> string" where
  "formatWithZeros order diff rawFmt =
     frmt order diff rawFmt (\<lambda>n verb unit result. verbReplace result n verb unit) rawFmt"

text \<open>\<^verbatim>\<open>Diff.Format\<close> and \<^verbatim>\<open>Diff.FormatWithZeros\<close>.\<close>

definition Format :: "(string \<times> string) list \<Rightarrow> Diff \<Rightarrow> string \<Rightarrow> error + string" where
  "Format order d rawFmt =
     (case unmarshal rawFmt of Inl err \<Rightarrow> Inl err | Inr _ \<Rightarrow> Inr (format order d rawFmt))"

definition FormatWithZeros :: "(string \<times> string) list \<Rightarrow> Diff \<Rightarrow> string \<Rightarrow> error + string" where
  "FormatWithZeros order d rawFmt =
     (case unmarshal rawFmt of Inl err \<Rightarrow> Inl err | Inr _ \<Rightarrow> Inr (formatWithZeros order d rawFmt))"

section \<open>The rendering as the specification words it\<close>

text \<open>
  The rendering as the specification words it (section 4.4), on a format given by
  its parts: pieces of literal text, each followed by a verb, and a last piece of
  literal text.
\<close>

definition verbLetters :: "char list" where
  "verbLetters = ''YyMmWwDd''"

definition countOf :: "Diff \<Rightarrow> char \<Rightarrow> int" where
  "countOf d c =
     (if c = CHR ''Y'' \<or> c = CHR ''y'' then Years d
      else if c = CHR ''M'' \<or> c = CHR ''m'' then Months d
      else if c = CHR ''W'' \<or> c = CHR ''w'' then Weeks d
      else Days d)"

definition nounOf :: "char \<Rightarrow> string" where
  "nounOf c =
     (if c = CHR ''Y'' \<or> c = CHR ''y'' then ''year''
      else if c = CHR ''M'' \<or> c = CHR ''m'' then ''month''
      else if c = CHR ''W'' \<or> c = CHR ''w'' then ''week''
      else ''day'')"

definition specVerb :: "Diff \<Rightarrow> char \<Rightarrow> string" where
  "specVerb d c =
     (let n = countOf d c
      in if c \<in> set ''YMWD'' then Itoa n @ '' '' @ nounOf c @ (if n = 1 then [] else ''s'')
         else Itoa n)"

definition dropLeadingSpace :: "string \<Rightarrow> string" where
  "dropLeadingSpace lit = (if lit \<noteq> [] \<and> last lit = CHR '' '' then butlast lit else lit)"

definition specItem :: "Diff \<Rightarrow> bool \<Rightarrow> string \<times> char \<Rightarrow> string" where
  "specItem d elideZeros item =
     (case item of (lit, c) \<Rightarrow>
        if elideZeros \<and> countOf d c = 0 then dropLeadingSpace lit else lit @ specVerb d c)"

definition specRender :: "Diff \<Rightarrow> bool \<Rightarrow> (string \<times> char) list \<Rightarrow> string \<Rightarrow> string" where
  "specRender d elideZeros items rest = concat (map (specItem d elideZeros) items) @ rest"

definition formatOf :: "(string \<times> char) list \<Rightarrow> string \<Rightarrow> string" where
  "formatOf items rest = concat (map (\<lambda>(lit, c). lit @ [CHR ''%'', c]) items) @ rest"

definition wellFormed :: "(string \<times> char) list \<Rightarrow> string \<Rightarrow> bool" where
  "wellFormed items rest =
     (list_all (\<lambda>(lit, c). CHR ''%'' \<notin> set lit \<and> c \<in> set verbLetters) items
      \<and> CHR ''%'' \<notin> set rest)"

definition noVerbAfterVerb :: "(string \<times> char) list \<Rightarrow> bool" where
  "noVerbAfterVerb items = list_all (\<lambda>(lit, c). lit \<noteq> []) (tl items)"

text \<open>The unit set that the verbs of a format select.\<close>

definition modeOfLetter :: "char \<Rightarrow> DiffMode" where
  "modeOfLetter c =
     (if c = CHR ''Y'' \<or> c = CHR ''y'' then ModeYears
      else if c = CHR ''M'' \<or> c = CHR ''m'' then ModeMonths
      else if c = CHR ''W'' \<or> c = CHR ''w'' then ModeWeeks
      else ModeDays)"

definition modeOfItems :: "DiffMode \<Rightarrow> (string \<times> char) list \<Rightarrow> DiffMode" where
  "modeOfItems md items = foldl (\<lambda>m (lit, c). m OR modeOfLetter c) md items"

section \<open>Properties of the calendar and of the counting loops\<close>

lemma dse_le_step: "daysSinceEpoch y + 365 \<le> daysSinceEpoch (y + 1)"
  by (simp add: dse_step)

lemma dse_mono_nat: "daysSinceEpoch y + 365 * int n \<le> daysSinceEpoch (y + int n)"
proof (induction n)
  case 0
  show ?case by simp
next
  case (Suc n)
  have "daysSinceEpoch (y + int n) + 365 \<le> daysSinceEpoch (y + int n + 1)"
    by (rule dse_le_step)
  then show ?case using Suc by (simp add: algebra_simps)
qed

lemma dse_mono: "y \<le> y' \<Longrightarrow> daysSinceEpoch y \<le> daysSinceEpoch y'"
  using dse_mono_nat[of y "nat (y' - y)"] by simp

lemma absYear_unique:
  assumes "daysSinceEpoch Y \<le> n" "n < daysSinceEpoch (Y + 1)"
  shows "fst (absYear n) = Y"
proof -
  obtain y yd where a: "absYear n = (y, yd)" by (cases "absYear n") auto
  note S = absYear_sound[OF a]
  have up: "n < daysSinceEpoch (y + 1)" using S by (simp add: dse_step split: if_splits)
  have lo: "daysSinceEpoch y \<le> n" using S by simp
  have "\<not> y < Y"
  proof
    assume "y < Y"
    then have "daysSinceEpoch (y + 1) \<le> daysSinceEpoch Y" by (intro dse_mono) simp
    then show False using up assms(1) by simp
  qed
  moreover have "\<not> Y < y"
  proof
    assume "Y < y"
    then have "daysSinceEpoch (Y + 1) \<le> daysSinceEpoch y" by (intro dse_mono) simp
    then show False using lo assms(2) by simp
  qed
  ultimately show ?thesis using a by simp
qed

lemma Year_absYear: "Year t = fst (absYear (absDay t))"
  unfolding Year_def absDate_def by (simp add: Let_def split: prod.splits)

text \<open>A valid day of month \<open>m\<close> of some year stays within any other year, at month \<open>m\<close>.\<close>

lemma dateDays_in_year:
  assumes "1 \<le> m" "m \<le> 12" "1 \<le> d" "d \<le> daysIn m y"
  shows "daysSinceEpoch Y \<le> dateDays Y m d" "dateDays Y m d < daysSinceEpoch (Y + 1)"
proof -
  have m: "m - 1 = 0 \<or> m - 1 = 1 \<or> m - 1 = 2 \<or> m - 1 = 3 \<or> m - 1 = 4 \<or> m - 1 = 5 \<or> m - 1 = 6
      \<or> m - 1 = 7 \<or> m - 1 = 8 \<or> m - 1 = 9 \<or> m - 1 = 10 \<or> m - 1 = 11"
    using assms(1,2) by (intro small_cases) simp_all
  have "daysSinceEpoch Y \<le> dateDays Y m d \<and> dateDays Y m d < daysSinceEpoch (Y + 1)"
    using m assms(3,4) unfolding dateDays_norm[OF assms(1,2)] dse_step daysIn_def
    by (elim disjE) (auto simp: daysBefore_def split: if_splits)
  then show "daysSinceEpoch Y \<le> dateDays Y m d" "dateDays Y m d < daysSinceEpoch (Y + 1)"
    by blast+
qed

lemma Year_AddDate_years: "Year (AddDate t n 0 0) = Year t + n"
proof -
  obtain y m d where a: "absDate (absDay t) = (y, m, d)" by (cases "absDate (absDay t)") auto
  note S = absDate_sound[OF a]
  have "Year (AddDate t n 0 0) = fst (absYear (dateDays (y + n) m d))"
    unfolding Year_absYear AddDate_def a Date_def by simp
  also have "\<dots> = y + n"
    by (rule absYear_unique) (use dateDays_in_year[OF S(1-4)] in auto)
  finally show ?thesis by (simp add: Year_def a)
qed

lemma not_After_refl: "\<not> After t t"
  by (simp add: After_def)

lemma fullYearsDiff_AddDate_years: "fullYearsDiff t (AddDate t n 0 0) = n"
  unfolding fullYearsDiff_def by (simp add: Year_AddDate_years not_After_refl)


lemma fullMonthsDiff_same: "fullMonthsDiff t t = 0"
proof -
  have "absDay (AddDate t 0 0 0) < absDay (AddDate t 0 (0 + 1) 0)"
    by (rule AddDate_month_mono) simp
  then have "\<not> (Before (AddDate t 0 (0 + 1) 0) t \<or> Equal (AddDate t 0 (0 + 1) 0) t)"
    by (simp add: AddDate_zero Before_def Equal_def)
  then show ?thesis unfolding fullMonthsDiff_def by (subst fullMonthsLoop.simps) simp
qed

lemma fullWeeksDiff_same: "fullWeeksDiff t t = 0"
  unfolding fullWeeksDiff_def
  by (subst fullWeeksLoop.simps) (simp add: AddDate_days Before_def Equal_def daysInWeek_def)

lemma fullDaysDiff_same: "fullDaysDiff t t = 0"
  unfolding fullDaysDiff_def
  by (subst fullDaysLoop.simps) (simp add: AddDate_days Before_def Equal_def)

lemma newDiff_unfold:
  "newDiff start e md =
     \<lparr>Years = (if md AND ModeYears \<noteq> 0 then fullYearsDiff start e else 0),
      Months = (if md AND ModeMonths \<noteq> 0 then monthsCount start e md else 0),
      Weeks = (if md AND ModeWeeks \<noteq> 0 then fullWeeksDiff (afterMonths start e md) e else 0),
      Days = (if md AND ModeDays \<noteq> 0 then fullDaysDiff (afterWeeks start e md) e else 0),
      rawFormat = [], mode = md\<rparr>"
  unfolding newDiff_def afterWeeks_def afterMonths_def monthsCount_def afterYears_def
  by (simp add: Let_def)



lemma unmarshal_nonzero: "unmarshal rawFmt \<noteq> Inr 0"
  unfolding unmarshal_def by (auto split: sum.splits)



subsection \<open>What the counting loops return\<close>

lemma le_iff_not_After: "Before t u \<or> Equal t u \<longleftrightarrow> \<not> After t u"
  unfolding Before_def Equal_def After_def by auto

lemma After_mono_left:
  "After a e \<Longrightarrow> absDay a \<le> absDay b \<Longrightarrow> dayNsec a = dayNsec b \<Longrightarrow> After b e"
  unfolding After_def by auto


lemma AddDate_month_mono_le: "j \<le> k \<Longrightarrow> absDay (AddDate t 0 j 0) \<le> absDay (AddDate t 0 k 0)"
  using AddDate_month_mono[of j k t] by (cases "j = k") auto

lemma AddDate_year_mono_le: "j \<le> k \<Longrightarrow> absDay (AddDate t j 0 0) \<le> absDay (AddDate t k 0 0)"
  using AddDate_year_mono[of j k t] by (cases "j = k") auto

lemma fullMonthsLoop_spec:
  "months \<le> fullMonthsLoop start e months
   \<and> (\<forall>k. months < k \<and> k \<le> fullMonthsLoop start e months \<longrightarrow> \<not> After (AddDate start 0 k 0) e)
   \<and> After (AddDate start 0 (fullMonthsLoop start e months + 1) 0) e"
proof (induction start e months rule: fullMonthsLoop.induct)
  case (1 start e months)
  show ?case
  proof (cases "Before (AddDate start 0 (months + 1) 0) e \<or> Equal (AddDate start 0 (months + 1) 0) e")
    case True
    then have eq: "fullMonthsLoop start e months = fullMonthsLoop start e (months + 1)"
      by (subst fullMonthsLoop.simps) simp
    have na: "\<not> After (AddDate start 0 (months + 1) 0) e" using True le_iff_not_After by blast
    have "\<not> After (AddDate start 0 k 0) e"
      if "months < k" "k \<le> fullMonthsLoop start e (months + 1)" for k
    proof (cases "k = months + 1")
      case True
      then show ?thesis using na by simp
    next
      case False
      then have "months + 1 < k" using that by simp
      then show ?thesis using 1[OF True] that by blast
    qed
    then show ?thesis using 1[OF True] unfolding eq by auto
  next
    case False
    then have eq: "fullMonthsLoop start e months = months"
      by (subst fullMonthsLoop.simps) simp
    show ?thesis unfolding eq using False le_iff_not_After by auto
  qed
qed

lemma fullMonthsDiff_nonneg: "0 \<le> fullMonthsDiff start e"
  unfolding fullMonthsDiff_def using fullMonthsLoop_spec[of 0 start e] by simp

lemma fullMonthsDiff_iff:
  assumes "1 \<le> k"
  shows "\<not> After (AddDate start 0 k 0) e \<longleftrightarrow> k \<le> fullMonthsDiff start e"
proof
  assume "k \<le> fullMonthsDiff start e"
  then show "\<not> After (AddDate start 0 k 0) e"
    using fullMonthsLoop_spec[of 0 start e] assms unfolding fullMonthsDiff_def by auto
next
  assume n: "\<not> After (AddDate start 0 k 0) e"
  show "k \<le> fullMonthsDiff start e"
  proof (rule ccontr)
    assume "\<not> k \<le> fullMonthsDiff start e"
    then have "fullMonthsDiff start e + 1 \<le> k" by simp
    then have "absDay (AddDate start 0 (fullMonthsDiff start e + 1) 0) \<le> absDay (AddDate start 0 k 0)"
      by (rule AddDate_month_mono_le)
    moreover have "After (AddDate start 0 (fullMonthsDiff start e + 1) 0) e"
      using fullMonthsLoop_spec[of 0 start e] unfolding fullMonthsDiff_def by simp
    ultimately have "After (AddDate start 0 k 0) e"
      using After_mono_left[of "AddDate start 0 (fullMonthsDiff start e + 1) 0" e "AddDate start 0 k 0"]
      by (simp add: AddDate_nsec)
    then show False using n by simp
  qed
qed

lemma fullDaysLoop_spec:
  "days \<le> fullDaysLoop start e days
   \<and> (\<forall>k. days < k \<and> k \<le> fullDaysLoop start e days \<longrightarrow> \<not> After (AddDate start 0 0 k) e)
   \<and> After (AddDate start 0 0 (fullDaysLoop start e days + 1)) e"
proof (induction start e days rule: fullDaysLoop.induct)
  case (1 start e days)
  show ?case
  proof (cases "Before (AddDate start 0 0 (days + 1)) e \<or> Equal (AddDate start 0 0 (days + 1)) e")
    case True
    then have eq: "fullDaysLoop start e days = fullDaysLoop start e (days + 1)"
      by (subst fullDaysLoop.simps) simp
    have na: "\<not> After (AddDate start 0 0 (days + 1)) e" using True le_iff_not_After by blast
    have "\<not> After (AddDate start 0 0 k) e"
      if "days < k" "k \<le> fullDaysLoop start e (days + 1)" for k
    proof (cases "k = days + 1")
      case True
      then show ?thesis using na by simp
    next
      case False
      then have "days + 1 < k" using that by simp
      then show ?thesis using 1[OF True] that by blast
    qed
    then show ?thesis using 1[OF True] unfolding eq by auto
  next
    case False
    then have eq: "fullDaysLoop start e days = days"
      by (subst fullDaysLoop.simps) simp
    show ?thesis unfolding eq using False le_iff_not_After by auto
  qed
qed

lemma fullDaysDiff_nonneg: "0 \<le> fullDaysDiff start e"
  unfolding fullDaysDiff_def using fullDaysLoop_spec[of 0 start e] by simp

lemma fullDaysDiff_iff:
  assumes "1 \<le> k"
  shows "\<not> After (AddDate start 0 0 k) e \<longleftrightarrow> k \<le> fullDaysDiff start e"
proof
  assume "k \<le> fullDaysDiff start e"
  then show "\<not> After (AddDate start 0 0 k) e"
    using fullDaysLoop_spec[of 0 start e] assms unfolding fullDaysDiff_def by auto
next
  assume n: "\<not> After (AddDate start 0 0 k) e"
  show "k \<le> fullDaysDiff start e"
  proof (rule ccontr)
    assume "\<not> k \<le> fullDaysDiff start e"
    then have "fullDaysDiff start e + 1 \<le> k" by simp
    moreover have "After (AddDate start 0 0 (fullDaysDiff start e + 1)) e"
      using fullDaysLoop_spec[of 0 start e] unfolding fullDaysDiff_def by simp
    ultimately have "After (AddDate start 0 0 k) e"
      by (auto simp: AddDate_days After_def)
    then show False using n by simp
  qed
qed

lemma fullWeeksLoop_spec:
  "weeks \<le> fullWeeksLoop start e weeks days
   \<and> (\<forall>j. 0 \<le> j \<and> j < fullWeeksLoop start e weeks days - weeks \<longrightarrow>
          \<not> After (AddDate start 0 0 (days + 7 * j)) e)
   \<and> After (AddDate start 0 0 (days + 7 * (fullWeeksLoop start e weeks days - weeks))) e"
proof (induction start e weeks days rule: fullWeeksLoop.induct)
  case (1 start e weeks days)
  show ?case
  proof (cases "Before (AddDate start 0 0 days) e \<or> Equal (AddDate start 0 0 days) e")
    case True
    then have eq: "fullWeeksLoop start e weeks days = fullWeeksLoop start e (weeks + 1) (days + daysInWeek)"
      by (subst fullWeeksLoop.simps) simp
    define r where "r = fullWeeksLoop start e (weeks + 1) (days + daysInWeek)"
    note IH = 1[OF True, folded r_def, unfolded daysInWeek_def]
    have na: "\<not> After (AddDate start 0 0 days) e" using True le_iff_not_After by blast
    have "\<not> After (AddDate start 0 0 (days + 7 * j)) e" if "0 \<le> j" "j < r - weeks" for j
    proof (cases "j = 0")
      case True
      then show ?thesis using na by simp
    next
      case False
      then have "0 \<le> j - 1 \<and> j - 1 < r - (weeks + 1)" using that by simp
      then have "\<not> After (AddDate start 0 0 (days + 7 + 7 * (j - 1))) e"
        using IH by blast
      moreover have "days + 7 + 7 * (j - 1) = days + 7 * j" by simp
      ultimately show ?thesis by simp
    qed
    moreover have "After (AddDate start 0 0 (days + 7 + 7 * (r - (weeks + 1)))) e"
      using IH by blast
    moreover have "days + 7 + 7 * (r - (weeks + 1)) = days + 7 * (r - weeks)" by simp
    ultimately have "(\<forall>j. 0 \<le> j \<and> j < r - weeks \<longrightarrow> \<not> After (AddDate start 0 0 (days + 7 * j)) e)
        \<and> After (AddDate start 0 0 (days + 7 * (r - weeks))) e" by simp
    moreover have "weeks \<le> r" using IH by simp
    ultimately show ?thesis unfolding eq r_def[symmetric] by blast
  next
    case False
    then have eq: "fullWeeksLoop start e weeks days = weeks"
      by (subst fullWeeksLoop.simps) simp
    show ?thesis unfolding eq using False le_iff_not_After by auto
  qed
qed

lemma fullWeeksDiff_nonneg: "0 \<le> fullWeeksDiff start e"
  unfolding fullWeeksDiff_def using fullWeeksLoop_spec[of 0 start e daysInWeek] by simp

lemma fullWeeksDiff_iff:
  assumes "1 \<le> k"
  shows "\<not> After (AddDate start 0 0 (7 * k)) e \<longleftrightarrow> k \<le> fullWeeksDiff start e"
proof
  assume "k \<le> fullWeeksDiff start e"
  then have "0 \<le> k - 1 \<and> k - 1 < fullWeeksLoop start e 0 daysInWeek - 0"
    using assms unfolding fullWeeksDiff_def by simp
  then have "\<not> After (AddDate start 0 0 (daysInWeek + 7 * (k - 1))) e"
    using fullWeeksLoop_spec[of 0 start e daysInWeek] by blast
  moreover have "daysInWeek + 7 * (k - 1) = 7 * k" by (simp add: daysInWeek_def)
  ultimately show "\<not> After (AddDate start 0 0 (7 * k)) e" by simp
next
  assume n: "\<not> After (AddDate start 0 0 (7 * k)) e"
  show "k \<le> fullWeeksDiff start e"
  proof (rule ccontr)
    assume "\<not> k \<le> fullWeeksDiff start e"
    then have "fullWeeksDiff start e + 1 \<le> k" by simp
    moreover have "After (AddDate start 0 0 (daysInWeek + 7 * (fullWeeksDiff start e - 0))) e"
      using fullWeeksLoop_spec[of 0 start e daysInWeek] unfolding fullWeeksDiff_def by blast
    ultimately have "After (AddDate start 0 0 (7 * k)) e"
      by (auto simp: AddDate_days After_def daysInWeek_def)
    then show False using n by simp
  qed
qed

lemma Year_bounds: "daysSinceEpoch (Year t) \<le> absDay t" "absDay t < daysSinceEpoch (Year t + 1)"
proof -
  obtain y yd where a: "absYear (absDay t) = (y, yd)" by (cases "absYear (absDay t)") auto
  note S = absYear_sound[OF a]
  have y: "Year t = y" by (simp add: Year_absYear a)
  show "daysSinceEpoch (Year t) \<le> absDay t" using S unfolding y by simp
  show "absDay t < daysSinceEpoch (Year t + 1)"
    using S unfolding y by (simp add: dse_step split: if_splits)
qed

lemma fullYearsDiff_iff: "\<not> After (AddDate start k 0 0) e \<longleftrightarrow> k \<le> fullYearsDiff start e"
proof -
  define k0 where "k0 = Year e - Year start"
  have low: "\<not> After (AddDate start k 0 0) e" if "k \<le> k0 - 1" for k
  proof -
    have "absDay (AddDate start k 0 0) < daysSinceEpoch (Year start + k + 1)"
      using Year_bounds(2)[of "AddDate start k 0 0"] by (simp add: Year_AddDate_years)
    also have "\<dots> \<le> daysSinceEpoch (Year e)"
      using that by (intro dse_mono) (simp add: k0_def)
    also have "\<dots> \<le> absDay e" by (rule Year_bounds)
    finally show ?thesis by (simp add: After_def)
  qed
  have high: "After (AddDate start k 0 0) e" if "k0 + 1 \<le> k" for k
  proof -
    have "absDay e < daysSinceEpoch (Year e + 1)" by (rule Year_bounds)
    also have "\<dots> \<le> daysSinceEpoch (Year start + k)"
      using that by (intro dse_mono) (simp add: k0_def)
    also have "\<dots> \<le> absDay (AddDate start k 0 0)"
      using Year_bounds(1)[of "AddDate start k 0 0"] by (simp add: Year_AddDate_years)
    finally show ?thesis by (simp add: After_def)
  qed
  show ?thesis
  proof (cases "After (AddDate start k0 0 0) e")
    case True
    then have Y: "fullYearsDiff start e = k0 - 1"
      unfolding fullYearsDiff_def k0_def by simp
    show ?thesis
    proof (cases "k \<le> k0 - 1")
      case le: True
      then show ?thesis using low Y by simp
    next
      case False
      then have "k = k0 \<or> k0 + 1 \<le> k" by linarith
      then have "After (AddDate start k 0 0) e" using True high by blast
      then show ?thesis using False Y by simp
    qed
  next
    case False
    then have Y: "fullYearsDiff start e = k0"
      unfolding fullYearsDiff_def k0_def by simp
    show ?thesis
    proof (cases "k \<le> k0")
      case le: True
      then have "k = k0 \<or> k \<le> k0 - 1" by linarith
      then have "\<not> After (AddDate start k 0 0) e" using False low by blast
      then show ?thesis using le Y by simp
    next
      case gt: False
      then have "After (AddDate start k 0 0) e" using high by simp
      then show ?thesis using gt Y by simp
    qed
  qed
qed










subsection \<open>Dates that are whole units apart\<close>

lemma dateDays_next_month:
  assumes "1 \<le> m" "m \<le> 12"
  shows "dateDays y (m + 1) d = dateDays y m d + daysIn m y"
proof (cases "m = 12")
  case True
  have "dateDays y (12 + 1) d = dateDays (y + 1) 1 d"
    using dateDays_year[of y 1 1 d] by simp
  also have "\<dots> = daysSinceEpoch (y + 1) + d - 1"
    by (subst dateDays_norm) (simp_all add: daysBefore_def)
  also have "\<dots> = dateDays y 12 d + daysIn 12 y"
    by (subst dateDays_norm) (simp_all add: daysBefore_def daysIn_def dse_step)
  finally show ?thesis using True by simp
next
  case False
  then have m11: "m \<le> 11" using assms by simp
  have m: "m - 1 = 0 \<or> m - 1 = 1 \<or> m - 1 = 2 \<or> m - 1 = 3 \<or> m - 1 = 4 \<or> m - 1 = 5 \<or> m - 1 = 6
      \<or> m - 1 = 7 \<or> m - 1 = 8 \<or> m - 1 = 9 \<or> m - 1 = 10 \<or> m - 1 = 11"
    using assms by (intro small_cases) simp_all
  have l: "dateDays y (m + 1) d = daysSinceEpoch y + daysBefore ! nat m
      + (if isLeap y \<and> 2 \<le> m then 1 else 0) + d - 1"
    using dateDays_norm[of "m + 1" y d] assms(1) m11 by simp
  have r: "dateDays y m d = daysSinceEpoch y + daysBefore ! nat (m - 1)
      + (if isLeap y \<and> 3 \<le> m then 1 else 0) + d - 1"
    by (rule dateDays_norm[OF assms])
  have "m = 1 \<or> m = 2 \<or> m = 3 \<or> m = 4 \<or> m = 5 \<or> m = 6 \<or> m = 7 \<or> m = 8 \<or> m = 9 \<or> m = 10 \<or> m = 11"
    using m m11 by auto
  then show ?thesis
    unfolding l r daysIn_def by (elim disjE) (simp_all add: daysBefore_def)
qed

lemma dateDays_month_mono_le: "j \<le> k \<Longrightarrow> dateDays y (m + j) d \<le> dateDays y (m + k) d"
  using dateDays_month_mono[of j k y m d] by (cases "j = k") auto

lemma dateDays_inj_month:
  assumes v: "1 \<le> m" "m \<le> 12" "1 \<le> d" "d \<le> daysIn m y"
    and v': "1 \<le> m'" "m' \<le> 12" "1 \<le> d'" "d' \<le> daysIn m' y"
    and eq: "dateDays y m d = dateDays y m' d'"
  shows "\<not> m < m'"
proof
  assume lt: "m < m'"
  have "dateDays y m d = dateDays y m 1 + (d - 1)"
    using dateDays_day[of y m 1 "d - 1"] by simp
  also have "\<dots> < dateDays y m 1 + daysIn m y" using v by simp
  also have "\<dots> = dateDays y (m + 1) 1" using dateDays_next_month[OF v(1,2)] by simp
  also have "\<dots> \<le> dateDays y (m + (m' - m)) 1"
    using lt by (intro dateDays_month_mono_le) simp
  also have "\<dots> = dateDays y m' 1" by simp
  also have "\<dots> \<le> dateDays y m' 1 + (d' - 1)" using v' by simp
  also have "\<dots> = dateDays y m' d'" using dateDays_day[of y m' 1 "d' - 1"] by simp
  finally show False using eq by simp
qed

lemma absDate_dateDays:
  assumes v: "1 \<le> m" "m \<le> 12" "1 \<le> d" "d \<le> daysIn m y"
  shows "absDate (dateDays y m d) = (y, m, d)"
proof -
  obtain y' m' d' where a: "absDate (dateDays y m d) = (y', m', d')"
    by (cases "absDate (dateDays y m d)") auto
  note S = absDate_sound[OF a]
  have "fst (absYear (dateDays y m d)) = y"
    by (rule absYear_unique) (use dateDays_in_year[OF v] in auto)
  moreover have "fst (absYear (dateDays y m d)) = y'"
    using a unfolding absDate_def by (simp add: Let_def split: prod.splits if_splits)
  ultimately have y: "y' = y" by simp
  have "\<not> m < m'" using dateDays_inj_month[OF v S(1-4)[unfolded y]] S(5) y by simp
  moreover have "\<not> m' < m" using dateDays_inj_month[OF S(1-4)[unfolded y] v] S(5) y by simp
  ultimately have m: "m' = m" by simp
  have "dateDays y m d' = dateDays y m d" using S(5) y m by simp
  then have "d' = d"
    using dateDays_day[of y m 0 d'] dateDays_day[of y m 0 d] by simp
  then show ?thesis using a y m by simp
qed

lemma daysIn_other_year: "m \<noteq> 2 \<or> d \<noteq> 29 \<Longrightarrow> 1 \<le> m \<Longrightarrow> m \<le> 12 \<Longrightarrow> d \<le> daysIn m y \<Longrightarrow> d \<le> daysIn m y'"
  unfolding daysIn_def by (auto simp: daysBefore_def split: if_splits)

lemma Time_eqI: "absDay t = absDay u \<Longrightarrow> dayNsec t = dayNsec u \<Longrightarrow> t = (u :: Time)"
  by simp

lemma AddDate_years_as_months: "AddDate t j 0 0 = AddDate t 0 (12 * j) 0"
  unfolding AddDate_def Date_def by (simp split: prod.splits add: dateDays_year)

lemma After_AddDate_months: "After (AddDate t 0 a 0) (AddDate t 0 b 0) \<longleftrightarrow> b < a"
proof (cases "b < a")
  case True
  then show ?thesis using AddDate_month_mono[of b a t] by (simp add: After_def)
next
  case False
  then have "absDay (AddDate t 0 a 0) \<le> absDay (AddDate t 0 b 0)"
    by (intro AddDate_month_mono_le) simp
  then show ?thesis using False by (auto simp: After_def AddDate_nsec)
qed

lemma After_AddDate_days: "After (AddDate t 0 0 a) (AddDate t 0 0 b) \<longleftrightarrow> b < a"
  by (auto simp: After_def AddDate_days)

lemma count_eqI:
  fixes M n :: int
  assumes "0 \<le> M" "0 \<le> n" "\<And>k. 1 \<le> k \<Longrightarrow> k \<le> M \<longleftrightarrow> k \<le> n"
  shows "M = n"
proof (rule ccontr)
  assume "M \<noteq> n"
  then consider "M < n" | "n < M" by linarith
  then show False
  proof cases
    case 1
    then show False using assms(3)[of n] assms(1) by simp
  next
    case 2
    then show False using assms(3)[of M] assms(2) by simp
  qed
qed

lemma AddDate_months_of_plain_date:
  assumes "Month t \<noteq> 2 \<or> Day t \<noteq> 29"
  shows "AddDate (AddDate t Y 0 0) 0 j 0 = AddDate t 0 (12 * Y + j) 0"
proof -
  obtain y m d where a: "absDate (absDay t) = (y, m, d)" by (cases "absDate (absDay t)") auto
  note S = absDate_sound[OF a]
  have md: "m \<noteq> 2 \<or> d \<noteq> 29" using assms unfolding Month_def Day_def a by simp
  have "d \<le> daysIn m (y + Y)" by (rule daysIn_other_year[OF md S(1,2,4)])
  then have c: "absDate (dateDays (y + Y) m d) = (y + Y, m, d)"
    using S by (intro absDate_dateDays) auto
  have "dateDays (y + Y) (m + j) d = dateDays y (m + (12 * Y + j)) d"
    using dateDays_year[of y Y "m + j" d] by (simp add: algebra_simps)
  then show ?thesis
    unfolding AddDate_def a Date_def by (simp add: c)
qed

lemma months_exact:
  assumes n: "0 \<le> n" and ok: "n < 12 \<or> Month start \<noteq> 2 \<or> Day start \<noteq> 29"
  defines "e \<equiv> AddDate start 0 n 0"
  shows "fullYearsDiff start e * 12 + fullMonthsDiff (AddDate start (fullYearsDiff start e) 0 0) e = n"
proof -
  define Y where "Y = fullYearsDiff start e"
  have yk: "k \<le> Y \<longleftrightarrow> 12 * k \<le> n" for k
    using fullYearsDiff_iff[of start k e]
    unfolding Y_def e_def AddDate_years_as_months After_AddDate_months by auto
  have Y: "12 * Y \<le> n" "n < 12 * Y + 12" using yk[of Y] yk[of "Y + 1"] by simp_all
  have c: "AddDate (AddDate start Y 0 0) 0 j 0 = AddDate start 0 (12 * Y + j) 0" for j
  proof (cases "n < 12")
    case True
    then have "Y = 0" using Y n by linarith
    then show ?thesis by (simp add: AddDate_zero)
  next
    case False
    then show ?thesis using ok by (intro AddDate_months_of_plain_date) auto
  qed
  define M where "M = fullMonthsDiff (AddDate start Y 0 0) e"
  have "k \<le> M \<longleftrightarrow> k \<le> n - 12 * Y" if "1 \<le> k" for k
    using fullMonthsDiff_iff[OF that, of "AddDate start Y 0 0" e]
    unfolding M_def c unfolding e_def After_AddDate_months by auto
  moreover have "0 \<le> M" unfolding M_def by (rule fullMonthsDiff_nonneg)
  ultimately have "M = n - 12 * Y" using Y by (intro count_eqI) auto
  then show ?thesis unfolding Y_def[symmetric] M_def[symmetric] by simp
qed

lemma weeks_exact:
  assumes "0 \<le> n"
  shows "fullWeeksDiff start (AddDate start 0 0 (7 * n)) = n"
proof (rule count_eqI)
  show "0 \<le> fullWeeksDiff start (AddDate start 0 0 (7 * n))" by (rule fullWeeksDiff_nonneg)
  show "0 \<le> n" by (rule assms)
  fix k :: int
  assume "1 \<le> k"
  from fullWeeksDiff_iff[OF this, of start "AddDate start 0 0 (7 * n)"]
  show "k \<le> fullWeeksDiff start (AddDate start 0 0 (7 * n)) \<longleftrightarrow> k \<le> n"
    unfolding After_AddDate_days by auto
qed

lemma days_exact:
  assumes "0 \<le> n"
  shows "fullDaysDiff start (AddDate start 0 0 n) = n"
proof (rule count_eqI)
  show "0 \<le> fullDaysDiff start (AddDate start 0 0 n)" by (rule fullDaysDiff_nonneg)
  show "0 \<le> n" by (rule assms)
  fix k :: int
  assume "1 \<le> k"
  from fullDaysDiff_iff[OF this, of start "AddDate start 0 0 n"]
  show "k \<le> fullDaysDiff start (AddDate start 0 0 n) \<longleftrightarrow> k \<le> n"
    unfolding After_AddDate_days by auto
qed

subsection \<open>Replacing in strings\<close>

lemma ReplaceAll_Nil: "old \<noteq> [] \<Longrightarrow> ReplaceAll [] old new = []"
  by (subst ReplaceAll.simps) simp

lemma ReplaceAll_match:
  assumes "old \<noteq> []"
  shows "ReplaceAll (old @ s) old new = new @ ReplaceAll s old new"
  using assms by (subst ReplaceAll.simps) (simp add: HasPrefix_def)

lemma ReplaceAll_step:
  assumes "old \<noteq> []" "\<not> HasPrefix (c # s) old"
  shows "ReplaceAll (c # s) old new = c # ReplaceAll s old new"
  using assms by (subst ReplaceAll.simps) simp

lemma HasPrefix_hd: "old \<noteq> [] \<Longrightarrow> HasPrefix (c # s) old \<Longrightarrow> hd old = c"
  unfolding HasPrefix_def by (cases old) auto

lemma ReplaceAll_skip:
  assumes "old \<noteq> []" "hd old \<notin> set pre"
  shows "ReplaceAll (pre @ s) old new = pre @ ReplaceAll s old new"
  using assms(2)
proof (induction pre)
  case Nil
  show ?case by simp
next
  case (Cons c pre)
  have "\<not> HasPrefix (c # pre @ s) old"
    using HasPrefix_hd[OF assms(1), of c "pre @ s"] Cons.prems by auto
  then show ?case using Cons ReplaceAll_step[OF assms(1)] by simp
qed

lemma HasPrefix_Cons: "HasPrefix (x # xs) (y # ys) \<longleftrightarrow> x = y \<and> HasPrefix xs ys"
  unfolding HasPrefix_def by auto

lemma HasPrefix_Nil [simp]: "HasPrefix s []" "HasPrefix [] p \<longleftrightarrow> p = []"
  unfolding HasPrefix_def by auto

lemma ReplaceAll_skip_gen:
  assumes "old \<noteq> []" "\<forall>i < length pre. \<not> HasPrefix (drop i (pre @ s)) old"
  shows "ReplaceAll (pre @ s) old new = pre @ ReplaceAll s old new"
  using assms(2)
proof (induction pre)
  case Nil
  show ?case by simp
next
  case (Cons c pre)
  have "\<not> HasPrefix (c # pre @ s) old" using Cons.prems by (auto dest: spec[of _ 0])
  moreover have "\<forall>i < length pre. \<not> HasPrefix (drop i (pre @ s)) old"
  proof (intro allI impI)
    fix i assume "i < length pre"
    then show "\<not> HasPrefix (drop i (pre @ s)) old"
      using Cons.prems by (auto dest!: spec[of _ "Suc i"])
  qed
  ultimately show ?case using Cons.IH ReplaceAll_step[OF assms(1)] by simp
qed

text \<open>Where a space followed by a verb can begin inside a text free of \<^verbatim>\<open>%\<close>: at its last byte only.\<close>

lemma space_verb_in_pre:
  assumes "CHR ''%'' \<notin> set pre" "i < length pre"
    "HasPrefix (drop i (pre @ s)) (CHR '' '' # CHR ''%'' # cs)"
  shows "last pre = CHR '' '' \<and> HasPrefix s (CHR ''%'' # cs)"
proof -
  have d: "drop i (pre @ s) = pre ! i # drop (Suc i) pre @ s"
    using assms(2) by (simp add: Cons_nth_drop_Suc)
  from assms(3) have sp: "pre ! i = CHR '' ''" and h: "HasPrefix (drop (Suc i) pre @ s) (CHR ''%'' # cs)"
    unfolding d by (simp_all add: HasPrefix_Cons)
  have e: "drop (Suc i) pre = []"
  proof (rule ccontr)
    assume "drop (Suc i) pre \<noteq> []"
    then obtain x xs where x: "drop (Suc i) pre = x # xs" by (cases "drop (Suc i) pre") auto
    then have "x = CHR ''%''" using h by (simp add: HasPrefix_Cons)
    moreover have "x \<in> set pre" using x by (metis in_set_dropD list.set_intros(1))
    ultimately show False using assms(1) by simp
  qed
  then have "Suc i = length pre" using assms(2) by simp
  then have "last pre = pre ! i"
    using assms(2) last_conv_nth[of pre] by (cases pre) auto
  then show ?thesis using sp h e by simp
qed

lemma no_percent_ReplaceAll:
  assumes "old \<noteq> []" "CHR ''%'' \<in> set old" "CHR ''%'' \<notin> set s"
  shows "ReplaceAll s old new = s"
proof -
  have "\<not> HasPrefix (drop i (s @ [])) old" for i
  proof
    assume "HasPrefix (drop i (s @ [])) old"
    then have "set old \<subseteq> set (drop i s)"
      unfolding HasPrefix_def by (metis append_Nil2 set_take_subset)
    then show False using assms(2,3) by (meson in_set_dropD subsetD)
  qed
  from ReplaceAll_skip_gen[OF assms(1), of s "[]" new] this
  show ?thesis by (simp add: ReplaceAll_Nil[OF assms(1)])
qed

lemma zeroVerbReplace_no_percent:
  "CHR ''%'' \<notin> set s \<Longrightarrow> zeroVerbReplace s (CHR ''%'' # cs) = s"
  unfolding zeroVerbReplace_def by (simp add: no_percent_ReplaceAll)

lemma zeroVerbReplace_with_space:
  assumes "CHR ''%'' \<notin> set pre"
  shows "zeroVerbReplace (pre @ '' '' @ CHR ''%'' # c # post) [CHR ''%'', c]
       = pre @ zeroVerbReplace post [CHR ''%'', c]"
proof -
  let ?v = "[CHR ''%'', c]"
  let ?sv = "'' '' @ ?v"
  have "\<forall>i < length pre. \<not> HasPrefix (drop i (pre @ ?sv @ post)) ?sv"
    using space_verb_in_pre[OF assms, of _ "?sv @ post" "[c]"] by (auto simp: HasPrefix_Cons)
  then have "ReplaceAll (pre @ ?sv @ post) ?sv [] = pre @ ReplaceAll (?sv @ post) ?sv []"
    by (intro ReplaceAll_skip_gen) simp_all
  also have "\<dots> = pre @ ReplaceAll post ?sv []"
    using ReplaceAll_match[of ?sv post "[]"] by simp
  finally have inner: "ReplaceAll (pre @ ?sv @ post) ?sv [] = pre @ ReplaceAll post ?sv []" .
  have "ReplaceAll (pre @ ReplaceAll post ?sv []) ?v [] = pre @ ReplaceAll (ReplaceAll post ?sv []) ?v []"
    using assms by (intro ReplaceAll_skip) simp_all
  then show ?thesis unfolding zeroVerbReplace_def using inner by simp
qed

lemma zeroVerbReplace_without_space:
  assumes "CHR ''%'' \<notin> set pre" "pre = [] \<or> last pre \<noteq> CHR '' ''" "c \<noteq> CHR '' ''"
  shows "zeroVerbReplace (pre @ CHR ''%'' # c # post) [CHR ''%'', c]
       = pre @ zeroVerbReplace post [CHR ''%'', c]"
proof -
  let ?v = "[CHR ''%'', c]"
  let ?sv = "'' '' @ ?v"
  have "\<forall>i < length pre. \<not> HasPrefix (drop i (pre @ ?v @ post)) ?sv"
    using space_verb_in_pre[OF assms(1), of _ "?v @ post" "[c]"] assms(2) by auto
  then have "ReplaceAll (pre @ ?v @ post) ?sv [] = pre @ ReplaceAll (?v @ post) ?sv []"
    by (intro ReplaceAll_skip_gen) simp_all
  also have "ReplaceAll (?v @ post) ?sv [] = ?v @ ReplaceAll post ?sv []"
    using assms(3) by (simp add: ReplaceAll_step HasPrefix_Cons)
  finally have inner: "ReplaceAll (pre @ ?v @ post) ?sv [] = pre @ ?v @ ReplaceAll post ?sv []" .
  have "ReplaceAll (pre @ ?v @ ReplaceAll post ?sv []) ?v []
      = pre @ ReplaceAll (?v @ ReplaceAll post ?sv []) ?v []"
    using assms(1) by (intro ReplaceAll_skip) simp_all
  also have "\<dots> = pre @ ReplaceAll (ReplaceAll post ?sv []) ?v []"
    using ReplaceAll_match[of ?v "ReplaceAll post ?sv []" "[]"] by simp
  finally show ?thesis unfolding zeroVerbReplace_def using inner by simp
qed

lemma zeroVerbReplace_other_verb:
  assumes "CHR ''%'' \<notin> set pre" "c' \<noteq> c" "c' \<noteq> CHR '' ''" "c' \<noteq> CHR ''%''"
  shows "zeroVerbReplace (pre @ CHR ''%'' # c' # post) [CHR ''%'', c]
       = pre @ CHR ''%'' # c' # zeroVerbReplace post [CHR ''%'', c]"
proof -
  let ?v = "[CHR ''%'', c]"
  let ?w = "[CHR ''%'', c']"
  let ?sv = "'' '' @ ?v"
  have "\<forall>i < length pre. \<not> HasPrefix (drop i (pre @ ?w @ post)) ?sv"
    using space_verb_in_pre[OF assms(1), of _ "?w @ post" "[c]"] assms(2)
    by (auto simp: HasPrefix_Cons)
  then have "ReplaceAll (pre @ ?w @ post) ?sv [] = pre @ ReplaceAll (?w @ post) ?sv []"
    by (intro ReplaceAll_skip_gen) simp_all
  also have "ReplaceAll (?w @ post) ?sv [] = ?w @ ReplaceAll post ?sv []"
    using assms(3) by (simp add: ReplaceAll_step HasPrefix_Cons)
  finally have inner: "ReplaceAll (pre @ ?w @ post) ?sv [] = pre @ ?w @ ReplaceAll post ?sv []" .
  have "ReplaceAll (pre @ ?w @ ReplaceAll post ?sv []) ?v []
      = pre @ ReplaceAll (?w @ ReplaceAll post ?sv []) ?v []"
    using assms(1) by (intro ReplaceAll_skip) simp_all
  also have "ReplaceAll (?w @ ReplaceAll post ?sv []) ?v [] = ?w @ ReplaceAll (ReplaceAll post ?sv []) ?v []"
    using assms(2,4) by (simp add: ReplaceAll_step HasPrefix_Cons)
  finally show ?thesis unfolding zeroVerbReplace_def using inner by simp
qed

subsection \<open>Rendering verb by verb\<close>

text \<open>The format with the verbs of the letters in \<open>P\<close> already rendered.\<close>

definition partItem :: "Diff \<Rightarrow> bool \<Rightarrow> char set \<Rightarrow> string \<times> char \<Rightarrow> string" where
  "partItem d e P item =
     (case item of (lit, c) \<Rightarrow> if c \<in> P then specItem d e (lit, c) else lit @ [CHR ''%'', c])"

definition partRender :: "Diff \<Rightarrow> bool \<Rightarrow> char set \<Rightarrow> (string \<times> char) list \<Rightarrow> string \<Rightarrow> string" where
  "partRender d e P items rest = concat (map (partItem d e P) items) @ rest"

lemma partRender_Nil [simp]: "partRender d e P [] rest = rest"
  by (simp add: partRender_def)

lemma partRender_Cons:
  "partRender d e P (item # items) rest = partItem d e P item @ partRender d e P items rest"
  by (simp add: partRender_def)

lemma partRender_empty: "partRender d e {} items rest = formatOf items rest"
  unfolding partRender_def formatOf_def partItem_def by (simp add: case_prod_beta)

lemma partRender_all:
  assumes "snd ` set items \<subseteq> P"
  shows "partRender d e P items rest = specRender d e items rest"
proof -
  have "map (partItem d e P) items = map (specItem d e) items"
    using assms by (auto simp: partItem_def)
  then show ?thesis unfolding partRender_def specRender_def by (simp only:)
qed

lemma partRender_absent:
  assumes "c0 \<notin> snd ` set items"
  shows "partRender d e (insert c0 P) items rest = partRender d e P items rest"
proof -
  have "map (partItem d e (insert c0 P)) items = map (partItem d e P) items"
    using assms by (auto simp: partItem_def image_iff)
  then show ?thesis unfolding partRender_def by (simp only:)
qed

lemma digitChar_not_percent:
  assumes "n < 10"
  shows "digitChar n \<noteq> CHR ''%''"
proof
  assume "digitChar n = CHR ''%''"
  then have "(of_char (digitChar n) :: nat) = of_char CHR ''%''" by simp
  then have "(48 + n) mod 256 = 37" unfolding digitChar_def by simp
  then show False using assms by simp
qed

lemma natDigits_no_percent: "CHR ''%'' \<notin> set (natDigits n)"
proof (induction n rule: natDigits.induct)
  case (1 n)
  show ?case
  proof (cases "n < 10")
    case True
    then show ?thesis
      using digitChar_not_percent[of n] by (subst natDigits.simps) auto
  next
    case False
    have "n mod 10 < 10" by simp
    then show ?thesis
      using False 1[OF False] digitChar_not_percent[of "n mod 10"]
      by (subst natDigits.simps) auto
  qed
qed

lemma Itoa_no_percent: "CHR ''%'' \<notin> set (Itoa n)"
  unfolding Itoa_def by (simp add: natDigits_no_percent)

lemma specVerb_no_percent: "CHR ''%'' \<notin> set (specVerb d c)"
  unfolding specVerb_def nounOf_def Let_def by (simp add: Itoa_no_percent)

lemma dropLeadingSpace_subset: "set (dropLeadingSpace lit) \<subseteq> set lit"
  unfolding dropLeadingSpace_def by (auto dest: in_set_butlastD)

lemma specItem_no_percent: "CHR ''%'' \<notin> set lit \<Longrightarrow> CHR ''%'' \<notin> set (specItem d e (lit, c))"
  unfolding specItem_def using dropLeadingSpace_subset[of lit] by (auto simp: specVerb_no_percent)

lemma verbLetter_plain: "c \<in> set verbLetters \<Longrightarrow> c \<noteq> CHR ''%'' \<and> c \<noteq> CHR '' ''"
  unfolding verbLetters_def by auto

lemma ReplaceAll_other_verb:
  assumes "c \<noteq> c0" "c \<noteq> CHR ''%''"
  shows "ReplaceAll (CHR ''%'' # c # s) [CHR ''%'', c0] new
       = CHR ''%'' # c # ReplaceAll s [CHR ''%'', c0] new"
  using assms by (simp add: ReplaceAll_step HasPrefix_Cons)

text \<open>Substituting the text \<open>t\<close> for the verb of the letter \<open>c0\<close>.\<close>

lemma subst_step:
  assumes wf: "list_all (\<lambda>(lit, c). CHR ''%'' \<notin> set lit \<and> c \<in> set verbLetters) items"
      "CHR ''%'' \<notin> set rest"
    and t: "\<And>lit. specItem d e (lit, c0) = lit @ t"
    and pre: "CHR ''%'' \<notin> set pre"
  shows "ReplaceAll (pre @ partRender d e P items rest) [CHR ''%'', c0] t
       = pre @ partRender d e (insert c0 P) items rest"
  using wf(1) pre
proof (induction items arbitrary: pre)
  case Nil
  then show ?case using wf(2) by (simp add: no_percent_ReplaceAll)
next
  case (Cons item items)
  obtain lit c where item: "item = (lit, c)" by (cases item) auto
  from Cons.prems item have lit: "CHR ''%'' \<notin> set lit" and c: "c \<in> set verbLetters"
    and items: "list_all (\<lambda>(lit, c). CHR ''%'' \<notin> set lit \<and> c \<in> set verbLetters) items"
    by simp_all
  let ?v = "[CHR ''%'', c0]"
  show ?case
  proof (cases "c \<in> P")
    case True
    define out where "out = specItem d e (lit, c)"
    have o: "CHR ''%'' \<notin> set (pre @ out)"
      using Cons.prems(2) specItem_no_percent[OF lit] by (simp add: out_def)
    have "ReplaceAll ((pre @ out) @ partRender d e P items rest) ?v t
        = (pre @ out) @ partRender d e (insert c0 P) items rest"
      by (rule Cons.IH[OF items o])
    then show ?thesis using True by (simp add: partRender_Cons item partItem_def out_def)
  next
    case False
    have p: "CHR ''%'' \<notin> set (pre @ lit)" using Cons.prems(2) lit by simp
    have tail: "ReplaceAll ([] @ partRender d e P items rest) ?v t
        = [] @ partRender d e (insert c0 P) items rest"
      by (rule Cons.IH[OF items]) simp
    have "ReplaceAll ((pre @ lit) @ CHR ''%'' # c # partRender d e P items rest) ?v t
        = (pre @ lit) @ ReplaceAll (CHR ''%'' # c # partRender d e P items rest) ?v t"
      using p by (intro ReplaceAll_skip) simp_all
    then have skip: "ReplaceAll (pre @ lit @ CHR ''%'' # c # partRender d e P items rest) ?v t
        = pre @ lit @ ReplaceAll (CHR ''%'' # c # partRender d e P items rest) ?v t" by simp
    show ?thesis
    proof (cases "c = c0")
      case True
      have "ReplaceAll (?v @ partRender d e P items rest) ?v t
          = t @ ReplaceAll (partRender d e P items rest) ?v t"
        by (rule ReplaceAll_match) simp
      then show ?thesis
        using skip tail True False t[of lit] by (simp add: partRender_Cons item partItem_def)
    next
      case neq: False
      have "ReplaceAll (CHR ''%'' # c # partRender d e P items rest) ?v t
          = CHR ''%'' # c # ReplaceAll (partRender d e P items rest) ?v t"
        using neq verbLetter_plain[OF c] by (intro ReplaceAll_other_verb) simp_all
      then show ?thesis
        using skip tail neq False by (simp add: partRender_Cons item partItem_def)
    qed
  qed
qed

text \<open>Removing the verb of the letter \<open>c0\<close>, whose count is zero.\<close>

lemma zero_step:
  assumes wf: "list_all (\<lambda>(lit, c). CHR ''%'' \<notin> set lit \<and> c \<in> set verbLetters) items"
      "CHR ''%'' \<notin> set rest"
    and z: "\<And>lit. specItem d e (lit, c0) = dropLeadingSpace lit"
    and c0: "c0 \<in> set verbLetters"
    and adj: "list_all (\<lambda>(lit, c). lit \<noteq> []) (tl items)"
    and pre: "CHR ''%'' \<notin> set pre"
    and first: "items = [] \<or> fst (hd items) \<noteq> [] \<or> pre = [] \<or> last pre \<noteq> CHR '' ''"
  shows "zeroVerbReplace (pre @ partRender d e P items rest) [CHR ''%'', c0]
       = pre @ partRender d e (insert c0 P) items rest"
  using wf(1) adj pre first
proof (induction items arbitrary: pre)
  case Nil
  then show ?case using wf(2) by (simp add: zeroVerbReplace_no_percent)
next
  case (Cons item items)
  obtain lit c where item: "item = (lit, c)" by (cases item) auto
  from Cons.prems(1) item have lit: "CHR ''%'' \<notin> set lit" and c: "c \<in> set verbLetters"
    and items: "list_all (\<lambda>(lit, c). CHR ''%'' \<notin> set lit \<and> c \<in> set verbLetters) items"
    by simp_all
  from Cons.prems(2) have ne: "list_all (\<lambda>(lit, c). lit \<noteq> []) items" by simp
  then have adj': "list_all (\<lambda>(lit, c). lit \<noteq> []) (tl items)" by (cases items) simp_all
  from ne have hd: "items = [] \<or> fst (hd items) \<noteq> []" by (cases items) auto
  let ?v = "[CHR ''%'', c0]"
  define X where "X = partRender d e P items rest"
  define X' where "X' = partRender d e (insert c0 P) items rest"
  have tail: "zeroVerbReplace X ?v = X'"
    using Cons.IH[OF items adj', of "[]"] by (simp add: X_def X'_def)
  show ?case
  proof (cases "c \<in> P")
    case True
    define out where "out = specItem d e (lit, c)"
    have o: "CHR ''%'' \<notin> set (pre @ out)"
      using Cons.prems(3) specItem_no_percent[OF lit] by (simp add: out_def)
    have "zeroVerbReplace ((pre @ out) @ X) ?v = (pre @ out) @ X'"
      unfolding X_def X'_def using hd by (intro Cons.IH[OF items adj' o]) auto
    then show ?thesis
      using True by (simp add: partRender_Cons item partItem_def out_def X_def X'_def)
  next
    case False
    have p: "CHR ''%'' \<notin> set (pre @ lit)" using Cons.prems(3) lit by simp
    show ?thesis
    proof (cases "c = c0")
      case neq: False
      have "zeroVerbReplace ((pre @ lit) @ CHR ''%'' # c # X) ?v
          = (pre @ lit) @ CHR ''%'' # c # zeroVerbReplace X ?v"
        using neq verbLetter_plain[OF c] by (intro zeroVerbReplace_other_verb[OF p]) simp_all
      then show ?thesis
        using tail neq False by (simp add: partRender_Cons item partItem_def X_def X'_def)
    next
      case True
      show ?thesis
      proof (cases "lit \<noteq> [] \<and> last lit = CHR '' ''")
        case sp: True
        then have l: "lit = butlast lit @ '' ''" by (metis append_butlast_last_id)
        have "CHR ''%'' \<notin> set (pre @ butlast lit)"
          using p by (auto dest: in_set_butlastD)
        then have "zeroVerbReplace ((pre @ butlast lit) @ '' '' @ CHR ''%'' # c0 # X) ?v
            = (pre @ butlast lit) @ zeroVerbReplace X ?v"
          by (rule zeroVerbReplace_with_space)
        moreover have "(pre @ butlast lit) @ '' '' @ CHR ''%'' # c0 # X = pre @ lit @ CHR ''%'' # c0 # X"
          using l by (metis append.assoc)
        ultimately have "zeroVerbReplace (pre @ lit @ CHR ''%'' # c0 # X) ?v
            = (pre @ butlast lit) @ zeroVerbReplace X ?v" by (simp only:)
        then have "zeroVerbReplace (pre @ lit @ CHR ''%'' # c0 # X) ?v
            = pre @ butlast lit @ X'" using tail by simp
        then show ?thesis
          using True False sp z[of lit]
          by (simp add: partRender_Cons item partItem_def X_def X'_def dropLeadingSpace_def)
      next
        case nsp: False
        have "pre @ lit = [] \<or> last (pre @ lit) \<noteq> CHR '' ''"
        proof (cases "lit = []")
          case True
          then show ?thesis using Cons.prems(4) item by simp
        next
          case False
          then show ?thesis using nsp by simp
        qed
        then have "zeroVerbReplace ((pre @ lit) @ CHR ''%'' # c0 # X) ?v
            = (pre @ lit) @ zeroVerbReplace X ?v"
          using verbLetter_plain[OF c0] by (intro zeroVerbReplace_without_space[OF p]) simp_all
        moreover have "dropLeadingSpace lit = lit" using nsp by (auto simp: dropLeadingSpace_def)
        ultimately show ?thesis
          using True False tail z[of lit]
          by (simp add: partRender_Cons item partItem_def X_def X'_def)
      qed
    qed
  qed
qed

lemma entry_cases:
  assumes "(verb, unit) \<in> set formatUnits"
  shows "(verb = ''%Y'' \<and> unit = ''year'') \<or> (verb = ''%y'' \<and> unit = ''year'')
     \<or> (verb = ''%M'' \<and> unit = ''month'') \<or> (verb = ''%m'' \<and> unit = ''month'')
     \<or> (verb = ''%W'' \<and> unit = ''week'') \<or> (verb = ''%w'' \<and> unit = ''week'')
     \<or> (verb = ''%D'' \<and> unit = ''day'') \<or> (verb = ''%d'' \<and> unit = ''day'')"
  using assms unfolding formatUnits_def by simp

lemma entry_facts_for:
  assumes "verb = [CHR ''%'', c]" "c \<in> set verbLetters" "unit = nounOf c"
  shows "unitCount d unit = countOf d c
     \<and> (\<forall>r. verbReplace r (countOf d c) verb unit = ReplaceAll r verb (specVerb d c))"
proof -
  have u: "IsUpper c \<longleftrightarrow> c \<in> set ''YMWD''"
    using assms(2) unfolding verbLetters_def IsUpper_def by auto
  have n: "unitCount d (nounOf c) = countOf d c"
    using assms(2) unfolding verbLetters_def unitCount_def countOf_def nounOf_def by auto
  show ?thesis
    unfolding assms(1,3) n verbReplace_def formatNoun_def specVerb_def Let_def
    using u by simp
qed

lemma entry_facts:
  assumes "(verb, unit) \<in> set formatUnits"
  shows "\<exists>c. c \<in> set verbLetters \<and> verb = [CHR ''%'', c] \<and> unitCount d unit = countOf d c
     \<and> (\<forall>r. verbReplace r (countOf d c) verb unit = ReplaceAll r verb (specVerb d c))"
proof -
  have "\<exists>c. verb = [CHR ''%'', c] \<and> c \<in> set verbLetters \<and> unit = nounOf c"
    using entry_cases[OF assms] unfolding verbLetters_def nounOf_def by auto
  then obtain c where c: "verb = [CHR ''%'', c]" "c \<in> set verbLetters" "unit = nounOf c" by blast
  from entry_facts_for[OF c, of d] c show ?thesis by blast
qed

lemma Contains_append: "Contains (xs @ v @ ys) v"
proof (induction xs)
  case Nil
  have h: "HasPrefix (v @ ys) v" by (simp add: HasPrefix_def)
  show ?case
  proof (cases "v @ ys")
    case Nil
    then show ?thesis by simp
  next
    case (Cons a list)
    then have "HasPrefix (a # list) v" using h by simp
    then show ?thesis using Cons by simp
  qed
next
  case (Cons x xs)
  then show ?case by simp
qed

lemma Contains_formatOf:
  assumes "c \<in> snd ` set items"
  shows "Contains (formatOf items rest) [CHR ''%'', c]"
proof -
  from assms obtain lit where "(lit, c) \<in> set items" by auto
  then obtain xs ys where i: "items = xs @ (lit, c) # ys" by (meson split_list)
  have "formatOf items rest
      = (concat (map (\<lambda>(lit, c). lit @ [CHR ''%'', c]) xs) @ lit) @ [CHR ''%'', c]
        @ (concat (map (\<lambda>(lit, c). lit @ [CHR ''%'', c]) ys) @ rest)"
    unfolding formatOf_def i by simp
  then show ?thesis using Contains_append by metis
qed

definition lettersOf :: "(string \<times> string) list \<Rightarrow> char set" where
  "lettersOf ord = {c. [CHR ''%'', c] \<in> fst ` set ord}"

lemma frmt_partRender:
  assumes wf: "list_all (\<lambda>(lit, c). CHR ''%'' \<notin> set lit \<and> c \<in> set verbLetters) items"
      "CHR ''%'' \<notin> set rest"
    and adj: "e \<longrightarrow> list_all (\<lambda>(lit, c). lit \<noteq> []) (tl items)"
    and ord: "set ord \<subseteq> set formatUnits"
  shows "frmt ord d (formatOf items rest)
           (\<lambda>n verb unit result.
              if e \<and> n = 0 then zeroVerbReplace result verb else verbReplace result n verb unit)
           (partRender d e P items rest)
         = partRender d e (P \<union> lettersOf ord) items rest"
  using ord
proof (induction ord arbitrary: P)
  case Nil
  show ?case by (simp add: lettersOf_def)
next
  case (Cons entry ord)
  obtain verb unit where entry: "entry = (verb, unit)" by (cases entry) auto
  from Cons.prems entry have "(verb, unit) \<in> set formatUnits" and ord': "set ord \<subseteq> set formatUnits"
    by simp_all
  from entry_facts[OF this(1), of d] obtain c0 where c0: "c0 \<in> set verbLetters"
    and v: "verb = [CHR ''%'', c0]" and n: "unitCount d unit = countOf d c0"
    and r: "\<And>r. verbReplace r (countOf d c0) verb unit = ReplaceAll r verb (specVerb d c0)"
    by blast
  define cb where "cb = (\<lambda>n verb unit result.
      if e \<and> n = 0 then zeroVerbReplace result verb else verbReplace result n (verb :: string) (unit :: string))"
  define R where "R = partRender d e P items rest"
  define raw where "raw = formatOf items rest"
  have step: "(if Contains raw verb then cb (unitCount d unit) verb unit R else R)
            = partRender d e (insert c0 P) items rest"
  proof (cases "Contains raw verb")
    case False
    then have "c0 \<notin> snd ` set items" using Contains_formatOf[of c0 items rest] v raw_def by auto
    then show ?thesis using False by (simp add: partRender_absent R_def)
  next
    case True
    show ?thesis
    proof (cases "e \<and> countOf d c0 = 0")
      case z: True
      then have "\<And>lit. specItem d e (lit, c0) = dropLeadingSpace lit" by (simp add: specItem_def)
      from zero_step[OF wf this c0, of "[]" P] adj z
      have "zeroVerbReplace R [CHR ''%'', c0] = partRender d e (insert c0 P) items rest"
        by (simp add: R_def)
      then show ?thesis using True z by (simp add: n v cb_def)
    next
      case nz: False
      then have "\<And>lit. specItem d e (lit, c0) = lit @ specVerb d c0" by (auto simp: specItem_def)
      from subst_step[OF wf this, of "[]" P]
      have "ReplaceAll R [CHR ''%'', c0] (specVerb d c0) = partRender d e (insert c0 P) items rest"
        by (simp add: R_def)
      then have "verbReplace R (countOf d c0) verb unit = partRender d e (insert c0 P) items rest"
        using r[of R] v by simp
      then show ?thesis using True nz by (auto simp: n cb_def)
    qed
  qed
  have l: "P \<union> lettersOf (entry # ord) = insert c0 P \<union> lettersOf ord"
    unfolding lettersOf_def entry v by auto
  have "frmt (entry # ord) d raw cb R
      = frmt ord d raw cb (if Contains raw verb then cb (unitCount d unit) verb unit R else R)"
    unfolding entry by (cases "Contains raw verb") (simp_all only: frmt.simps if_True if_False)
  also have "\<dots> = frmt ord d raw cb (partRender d e (insert c0 P) items rest)"
    by (simp only: step)
  also have "\<dots> = partRender d e (insert c0 P \<union> lettersOf ord) items rest"
    using Cons.IH[OF ord', of "insert c0 P"] unfolding cb_def raw_def .
  finally show ?case unfolding l cb_def raw_def R_def .
qed

lemma lettersOf_order:
  assumes "iterationOrder order"
  shows "set verbLetters \<subseteq> lettersOf order"
  using assms unfolding iterationOrder_def lettersOf_def formatUnits_def verbLetters_def
  by (auto simp: image_iff)

subsection \<open>What \<^verbatim>\<open>unmarshal\<close> returns\<close>

lemma skipLiteral_run:
  assumes "CHR ''%'' \<notin> set lit"
  shows "skipLiteral (pre @ lit @ s) (length pre) = skipLiteral (pre @ lit @ s) (length pre + length lit)"
  using assms
proof (induction lit arbitrary: pre)
  case Nil
  show ?case by simp
next
  case (Cons x lit)
  have "skipLiteral (pre @ (x # lit) @ s) (length pre) = skipLiteral (pre @ (x # lit) @ s) (length pre + 1)"
    using Cons.prems by (subst skipLiteral.simps) (auto simp: nth_append)
  also have "\<dots> = skipLiteral ((pre @ [x]) @ lit @ s) (length (pre @ [x]))" by simp
  also have "\<dots> = skipLiteral ((pre @ [x]) @ lit @ s) (length (pre @ [x]) + length lit)"
    using Cons.prems by (intro Cons.IH) simp
  finally show ?case by simp
qed

lemma skipLiteral_stop:
  "skipLiteral (pre @ CHR ''%'' # s) (length pre) = length pre"
  "skipLiteral pre (length pre) = length pre"
  by (subst skipLiteral.simps, simp add: nth_append)+

text \<open>From an index \<open>j\<close> with no \<^verbatim>\<open>%\<close> up to the end of \<open>pre\<close>, and literal text after it.\<close>

lemma skipLiteral_to:
  assumes "j \<le> length pre" "CHR ''%'' \<notin> set (drop j pre)" "CHR ''%'' \<notin> set lit"
  shows "skipLiteral (pre @ lit @ s) j = skipLiteral (pre @ lit @ s) (length pre + length lit)"
proof -
  have "pre @ lit @ s = take j pre @ (drop j pre @ lit) @ s" by simp
  moreover have "length (take j pre) = j" using assms(1) by simp
  moreover have "CHR ''%'' \<notin> set (drop j pre @ lit)" using assms by simp
  ultimately have "skipLiteral (pre @ lit @ s) j
      = skipLiteral (pre @ lit @ s) (j + length (drop j pre @ lit))"
    using skipLiteral_run[of "drop j pre @ lit" "take j pre" s] by metis
  then show ?thesis using assms(1) by simp
qed

lemma verbLetters_iff:
  "c \<in> set verbLetters \<longleftrightarrow>
     c = CHR ''Y'' \<or> c = CHR ''y'' \<or> c = CHR ''M'' \<or> c = CHR ''m''
     \<or> c = CHR ''W'' \<or> c = CHR ''w'' \<or> c = CHR ''D'' \<or> c = CHR ''d''"
  unfolding verbLetters_def by auto

lemma unmarshalLoop_at_percent:
  fixes s pre lit :: string
  assumes "j \<le> length pre" "CHR ''%'' \<notin> set (drop j pre)" "CHR ''%'' \<notin> set lit"
  defines "raw \<equiv> pre @ lit @ CHR ''%'' # s"
  shows "unmarshalLoop raw j md =
     (if s = [] then Inl PanicIndexOutOfRange
      else if hd s \<in> set verbLetters
        then unmarshalLoop raw (length pre + length lit + 1) (md OR modeOfLetter (hd s))
        else Inl (UnknownVerb raw (hd s)))"
proof -
  have sk: "skipLiteral raw j = length pre + length lit"
    using skipLiteral_to[OF assms(1-3), of "CHR ''%'' # s"]
      skipLiteral_stop(1)[of "pre @ lit" s] unfolding raw_def by simp
  have j: "j < length raw" using assms(1) unfolding raw_def by simp
  have p: "\<not> length raw \<le> length pre + length lit" unfolding raw_def by simp
  show ?thesis
  proof (cases s)
    case Nil
    then have "length raw \<le> length pre + length lit + 1" unfolding raw_def by simp
    then show ?thesis
      using Nil j p by (subst unmarshalLoop.simps) (simp add: sk Let_def)
  next
    case (Cons c s')
    then have k: "\<not> length raw \<le> length pre + length lit + 1" unfolding raw_def by simp
    have c: "raw ! Suc (length pre + length lit) = c"
      unfolding raw_def Cons using nth_append_length[of "pre @ lit @ ''%''" c s'] by simp
    have u: "unmarshalLoop raw j md =
       (if c = CHR ''Y'' \<or> c = CHR ''y''
          then unmarshalLoop raw (Suc (length pre + length lit)) (md OR ModeYears)
        else if c = CHR ''M'' \<or> c = CHR ''m''
          then unmarshalLoop raw (Suc (length pre + length lit)) (md OR ModeMonths)
        else if c = CHR ''W'' \<or> c = CHR ''w''
          then unmarshalLoop raw (Suc (length pre + length lit)) (md OR ModeWeeks)
        else if c = CHR ''D'' \<or> c = CHR ''d''
          then unmarshalLoop raw (Suc (length pre + length lit)) (md OR ModeDays)
        else Inl (UnknownVerb raw c))"
      using j p k by (subst unmarshalLoop.simps) (simp add: sk Let_def c)
    show ?thesis
      unfolding u using Cons by (auto simp: verbLetters_iff modeOfLetter_def)
  qed
qed

lemma unmarshalLoop_end:
  assumes "j \<le> length pre" "CHR ''%'' \<notin> set (drop j pre)" "CHR ''%'' \<notin> set rest"
  shows "unmarshalLoop (pre @ rest) j md = Inr md"
proof -
  have "skipLiteral (pre @ rest) j = length (pre @ rest)"
    using skipLiteral_to[OF assms, of "[]"] skipLiteral_stop(2)[of "pre @ rest"] by simp
  then show ?thesis by (subst unmarshalLoop.simps) (simp add: Let_def)
qed

lemma formatOf_Cons:
  "formatOf ((lit, c) # items) rest = lit @ CHR ''%'' # c # formatOf items rest"
  by (simp add: formatOf_def)

lemma formatOf_Nil: "formatOf [] rest = rest"
  by (simp add: formatOf_def)

lemma formatOf_rest: "formatOf items rest = formatOf items [] @ rest"
  by (simp add: formatOf_def)

lemma unmarshalLoop_items:
  assumes "list_all (\<lambda>(lit, c). CHR ''%'' \<notin> set lit \<and> c \<in> set verbLetters) items"
    "j \<le> length pre" "CHR ''%'' \<notin> set (drop j pre)"
  shows "\<exists>j'. j' \<le> length (pre @ formatOf items [])
      \<and> CHR ''%'' \<notin> set (drop j' (pre @ formatOf items []))
      \<and> (\<forall>rest md. unmarshalLoop (pre @ formatOf items [] @ rest) j md
            = unmarshalLoop (pre @ formatOf items [] @ rest) j' (modeOfItems md items))"
  using assms
proof (induction items arbitrary: pre j)
  case Nil
  then show ?case by (auto simp: formatOf_Nil modeOfItems_def)
next
  case (Cons item items)
  obtain lit c where item: "item = (lit, c)" by (cases item) auto
  from Cons.prems(1) item have lit: "CHR ''%'' \<notin> set lit" and c: "c \<in> set verbLetters"
    and items: "list_all (\<lambda>(lit, c). CHR ''%'' \<notin> set lit \<and> c \<in> set verbLetters) items"
    by simp_all
  define pre' where "pre' = pre @ lit @ [CHR ''%'', c]"
  define k where "k = length pre + length lit + 1"
  have k: "k \<le> length pre'" "CHR ''%'' \<notin> set (drop k pre')"
    using c unfolding k_def pre'_def by (auto simp: verbLetters_iff)
  from Cons.IH[OF items k] obtain j' where j': "j' \<le> length (pre' @ formatOf items [])"
    "CHR ''%'' \<notin> set (drop j' (pre' @ formatOf items []))"
    "\<And>rest md. unmarshalLoop (pre' @ formatOf items [] @ rest) k md
        = unmarshalLoop (pre' @ formatOf items [] @ rest) j' (modeOfItems md items)"
    by blast
  have e: "pre @ formatOf (item # items) [] @ rest = pre' @ formatOf items [] @ rest" for rest
    unfolding item formatOf_Cons pre'_def by simp
  have e0: "pre @ formatOf (item # items) [] = pre' @ formatOf items []"
    using e[of "[]"] by simp
  have "unmarshalLoop (pre @ formatOf (item # items) [] @ rest) j md
      = unmarshalLoop (pre @ formatOf (item # items) [] @ rest) j' (modeOfItems md (item # items))"
    for rest md
  proof -
    have "unmarshalLoop (pre @ lit @ CHR ''%'' # (c # formatOf items [] @ rest)) j md
        = unmarshalLoop (pre @ lit @ CHR ''%'' # (c # formatOf items [] @ rest)) k
            (md OR modeOfLetter c)"
      using unmarshalLoop_at_percent[OF Cons.prems(2,3) lit, of "c # formatOf items [] @ rest" md] c
      by (simp add: k_def)
    moreover have "pre @ lit @ CHR ''%'' # (c # formatOf items [] @ rest)
        = pre' @ formatOf items [] @ rest" unfolding pre'_def by simp
    ultimately have "unmarshalLoop (pre' @ formatOf items [] @ rest) j md
        = unmarshalLoop (pre' @ formatOf items [] @ rest) j' (modeOfItems (md OR modeOfLetter c) items)"
      using j'(3)[of rest "md OR modeOfLetter c"] by simp
    then show ?thesis unfolding e by (simp add: modeOfItems_def item)
  qed
  then show ?case using j'(1,2) unfolding e0 by blast
qed

lemma modeOfLetter_nonzero: "modeOfLetter c \<noteq> 0"
  unfolding modeOfLetter_def ModeYears_def ModeMonths_def ModeWeeks_def ModeDays_def by simp

lemma modeOfItems_nonzero: "md \<noteq> 0 \<Longrightarrow> modeOfItems md items \<noteq> 0"
proof (induction items arbitrary: md)
  case Nil
  then show ?case by (simp add: modeOfItems_def)
next
  case (Cons item items)
  obtain lit c where item: "item = (lit, c)" by (cases item) auto
  have "md OR modeOfLetter c \<noteq> 0" using Cons.prems by (simp add: or_eq_0_iff)
  from Cons.IH[OF this] show ?case by (simp add: modeOfItems_def item)
qed

lemma modeOfItems_Cons_nonzero: "items \<noteq> [] \<Longrightarrow> modeOfItems 0 items \<noteq> 0"
proof (cases items)
  case Nil
  then show "items \<noteq> [] \<Longrightarrow> ?thesis" by simp
next
  case (Cons item rest)
  obtain lit c where item: "item = (lit, c)" by (cases item) auto
  have "modeOfItems (0 OR modeOfLetter c) rest \<noteq> 0"
    by (rule modeOfItems_nonzero) (simp add: modeOfLetter_nonzero)
  then show ?thesis by (simp add: modeOfItems_def Cons item)
qed

text \<open>What \<^verbatim>\<open>unmarshal\<close> returns, by the shape of the format.\<close>

lemma unmarshal_parts:
  assumes "wellFormed items rest"
  shows "unmarshal (formatOf items rest)
       = (if items = [] then Inl ErrUndefinedDiffMode else Inr (modeOfItems 0 items))"
proof -
  from assms have w: "list_all (\<lambda>(lit, c). CHR ''%'' \<notin> set lit \<and> c \<in> set verbLetters) items"
    and r: "CHR ''%'' \<notin> set rest" by (simp_all add: wellFormed_def)
  from unmarshalLoop_items[OF w, of 0 "[]"] obtain j' where j': "j' \<le> length (formatOf items [])"
    "CHR ''%'' \<notin> set (drop j' (formatOf items []))"
    "\<And>rest md. unmarshalLoop (formatOf items [] @ rest) 0 md
        = unmarshalLoop (formatOf items [] @ rest) j' (modeOfItems md items)"
    by auto
  have "unmarshalLoop (formatOf items rest) 0 0 = Inr (modeOfItems 0 items)"
    using j'(3)[of rest 0] unmarshalLoop_end[OF j'(1,2) r] formatOf_rest[of items rest] by simp
  then show ?thesis
    unfolding unmarshal_def using modeOfItems_Cons_nonzero[of items]
    by (auto simp: modeOfItems_def)
qed

lemma unmarshal_unknown_verb:
  fixes s :: string
  assumes "list_all (\<lambda>(lit, c). CHR ''%'' \<notin> set lit \<and> c \<in> set verbLetters) items"
    "CHR ''%'' \<notin> set lit" "c \<notin> set verbLetters"
  defines "raw \<equiv> formatOf items (lit @ CHR ''%'' # c # s)"
  shows "unmarshal raw = Inl (UnknownVerb raw c)"
proof -
  from unmarshalLoop_items[OF assms(1), of 0 "[]"] obtain j' where j': "j' \<le> length (formatOf items [])"
    "CHR ''%'' \<notin> set (drop j' (formatOf items []))"
    "\<And>rest md. unmarshalLoop (formatOf items [] @ rest) 0 md
        = unmarshalLoop (formatOf items [] @ rest) j' (modeOfItems md items)"
    by auto
  have raw: "raw = formatOf items [] @ lit @ CHR ''%'' # c # s"
    unfolding raw_def using formatOf_rest[of items "lit @ CHR ''%'' # c # s"] by simp
  have "unmarshalLoop raw 0 0 = Inl (UnknownVerb raw c)"
    unfolding raw using j'(3)[of "lit @ CHR ''%'' # c # s" 0]
      unmarshalLoop_at_percent[OF j'(1,2) assms(2), of "c # s" "modeOfItems 0 items"] assms(3)
    by simp
  then show ?thesis unfolding unmarshal_def by simp
qed

lemma unmarshal_dangling_percent:
  assumes "list_all (\<lambda>(lit, c). CHR ''%'' \<notin> set lit \<and> c \<in> set verbLetters) items"
    "CHR ''%'' \<notin> set lit"
  shows "unmarshal (formatOf items (lit @ ''%'')) = Inl PanicIndexOutOfRange"
proof -
  from unmarshalLoop_items[OF assms(1), of 0 "[]"] obtain j' where j': "j' \<le> length (formatOf items [])"
    "CHR ''%'' \<notin> set (drop j' (formatOf items []))"
    "\<And>rest md. unmarshalLoop (formatOf items [] @ rest) 0 md
        = unmarshalLoop (formatOf items [] @ rest) j' (modeOfItems md items)"
    by auto
  have raw: "formatOf items (lit @ ''%'') = formatOf items [] @ lit @ CHR ''%'' # []"
    using formatOf_rest[of items "lit @ ''%''"] by simp
  have "unmarshalLoop (formatOf items (lit @ ''%'')) 0 0 = Inl PanicIndexOutOfRange"
    unfolding raw using j'(3)[of "lit @ CHR ''%'' # []" 0]
      unmarshalLoop_at_percent[OF j'(1,2) assms(2), of "[]" "modeOfItems 0 items"]
    by simp
  then show ?thesis unfolding unmarshal_def by simp
qed

text \<open>Every string has one of the three shapes.\<close>

lemma format_shapes:
  "\<exists>items. list_all (\<lambda>(lit, c). CHR ''%'' \<notin> set lit \<and> c \<in> set verbLetters) items
     \<and> ((\<exists>rest. CHR ''%'' \<notin> set rest \<and> raw = formatOf items rest)
        \<or> (\<exists>lit c s. CHR ''%'' \<notin> set lit \<and> c \<notin> set verbLetters
              \<and> raw = formatOf items (lit @ CHR ''%'' # c # s))
        \<or> (\<exists>lit. CHR ''%'' \<notin> set lit \<and> raw = formatOf items (lit @ ''%'')))"
proof (induction raw rule: length_induct)
  case (1 raw)
  show ?case
  proof (cases "CHR ''%'' \<in> set raw")
    case False
    then have "CHR ''%'' \<notin> set raw \<and> raw = formatOf [] raw" by (simp add: formatOf_Nil)
    then show ?thesis by (intro exI[of _ "[]"]) auto
  next
    case True
    then obtain lit t where split: "raw = lit @ CHR ''%'' # t" "CHR ''%'' \<notin> set lit"
      by (meson split_list_first)
    show ?thesis
    proof (cases t)
      case Nil
      then have "raw = formatOf [] (lit @ ''%'')" using split by (simp add: formatOf_Nil)
      then show ?thesis using split(2) by (intro exI[of _ "[]"]) auto
    next
      case (Cons c s)
      show ?thesis
      proof (cases "c \<in> set verbLetters")
        case False
        have "raw = formatOf [] (lit @ CHR ''%'' # c # s)" using split Cons by (simp add: formatOf_Nil)
        then show ?thesis using split(2) False by (intro exI[of _ "[]"]) auto
      next
        case c: True
        have "length s < length raw" using split Cons by simp
        with 1 obtain items where items:
          "list_all (\<lambda>(lit, c). CHR ''%'' \<notin> set lit \<and> c \<in> set verbLetters) items"
          "(\<exists>rest. CHR ''%'' \<notin> set rest \<and> s = formatOf items rest)
           \<or> (\<exists>lit c' s'. CHR ''%'' \<notin> set lit \<and> c' \<notin> set verbLetters
                 \<and> s = formatOf items (lit @ CHR ''%'' # c' # s'))
           \<or> (\<exists>lit. CHR ''%'' \<notin> set lit \<and> s = formatOf items (lit @ ''%''))"
          by blast
        have w: "list_all (\<lambda>(lit, c). CHR ''%'' \<notin> set lit \<and> c \<in> set verbLetters) ((lit, c) # items)"
          using items(1) split(2) c by simp
        have r: "raw = formatOf ((lit, c) # items) x" if "s = formatOf items x" for x
          using that split Cons by (simp add: formatOf_Cons)
        from items(2) r have
          "(\<exists>rest. CHR ''%'' \<notin> set rest \<and> raw = formatOf ((lit, c) # items) rest)
           \<or> (\<exists>lit' c' s'. CHR ''%'' \<notin> set lit' \<and> c' \<notin> set verbLetters
                 \<and> raw = formatOf ((lit, c) # items) (lit' @ CHR ''%'' # c' # s'))
           \<or> (\<exists>lit'. CHR ''%'' \<notin> set lit' \<and> raw = formatOf ((lit, c) # items) (lit' @ ''%''))"
          by blast
        with w show ?thesis by blast
      qed
    qed
  qed
qed

lemma valid_format_parts:
  assumes "unmarshal raw = Inr md"
  shows "\<exists>items rest. items \<noteq> [] \<and> wellFormed items rest \<and> raw = formatOf items rest
     \<and> md = modeOfItems 0 items"
proof -
  from format_shapes[of raw] obtain items where
    w: "list_all (\<lambda>(lit, c). CHR ''%'' \<notin> set lit \<and> c \<in> set verbLetters) items"
    and s: "(\<exists>rest. CHR ''%'' \<notin> set rest \<and> raw = formatOf items rest)
        \<or> (\<exists>lit c s. CHR ''%'' \<notin> set lit \<and> c \<notin> set verbLetters
              \<and> raw = formatOf items (lit @ CHR ''%'' # c # s))
        \<or> (\<exists>lit. CHR ''%'' \<notin> set lit \<and> raw = formatOf items (lit @ ''%''))"
    by blast
  from s consider
    (ok) rest where "CHR ''%'' \<notin> set rest" "raw = formatOf items rest"
    | (unknown) lit c s where "CHR ''%'' \<notin> set lit" "c \<notin> set verbLetters"
        "raw = formatOf items (lit @ CHR ''%'' # c # s)"
    | (dangling) lit where "CHR ''%'' \<notin> set lit" "raw = formatOf items (lit @ ''%'')"
    by blast
  then show ?thesis
  proof cases
    case ok
    then have wf: "wellFormed items rest" using w by (simp add: wellFormed_def)
    from unmarshal_parts[OF wf] assms ok(2)
    have "items \<noteq> [] \<and> md = modeOfItems 0 items" by (auto split: if_splits)
    then show ?thesis using wf ok(2) by blast
  next
    case unknown
    then show ?thesis using unmarshal_unknown_verb[OF w unknown(1,2), of s] assms by simp
  next
    case dangling
    then show ?thesis using unmarshal_dangling_percent[OF w dangling(1)] assms by simp
  qed
qed

section \<open>The claims\<close>

subsection \<open>C1\<close>

text \<open>
  C1. With months selected and years not, the months reported are twelve times
  the full years from start to end plus the whole months counted from the start
  moved forward by those years; between a date and the same date \<open>n\<close> years on
  this gives exactly \<open>12 n\<close> months, 36 for three years. (No ordering of the two
  dates is needed for the equation.)
\<close>

theorem months_alone_total:
  "md AND ModeMonths \<noteq> 0 \<Longrightarrow> md AND ModeYears = 0 \<Longrightarrow>
     Months (newDiff start e md)
       = fullYearsDiff start e * 12
         + fullMonthsDiff (AddDate start (fullYearsDiff start e) 0 0) e
     \<and> Months (newDiff start (AddDate start n 0 0) md) = n * 12"
  by (simp add: newDiff_unfold monthsCount_def afterYears_def monthsInYear_def Let_def
      fullYearsDiff_AddDate_years fullMonthsDiff_same)

theorem months_alone_total_witness:
  "ModeMonths AND ModeMonths \<noteq> 0 \<and> ModeMonths AND ModeYears = 0
   \<and> Months (newDiff (Date 2000 4 17 0) (Date 2003 3 16 0) ModeMonths) = 2 * 12 + 10
   \<and> Months (newDiff (Date 2000 4 17 0) (AddDate (Date 2000 4 17 0) 3 0 0) ModeMonths) = 36"
proof -
  have m: "ModeMonths AND ModeMonths \<noteq> 0" "ModeMonths AND ModeYears = 0"
    by (simp_all add: ModeMonths_def ModeYears_def)
  have y: "fullYearsDiff (Date 2000 4 17 0) (Date 2003 3 16 0) = 2" by code_simp
  have c: "fullMonthsDiff (AddDate (Date 2000 4 17 0) 2 0 0) (Date 2003 3 16 0) = 10" by code_simp
  show ?thesis
    using months_alone_total[OF m, of "Date 2000 4 17 0" "Date 2003 3 16 0" 3] m
    by (simp add: y c)
qed

subsection \<open>C2\<close>

text \<open>
  C2, as stated, fails for a selected unit that is not the coarsest one: with
  years and months selected and the end thirteen months after 1 January 2000,
  the months reported are 1, the remainder after one year, not 13.
\<close>

theorem months_after_years_is_remainder:
  "(ModeYears OR ModeMonths) AND ModeMonths \<noteq> 0
   \<and> newDiff (Date 2000 1 1 0) (AddDate (Date 2000 1 1 0) 0 13 0) (ModeYears OR ModeMonths)
       = \<lparr>Years = 1, Months = 1, Weeks = 0, Days = 0, rawFormat = [], mode = ModeYears OR ModeMonths\<rparr>
   \<and> Months (newDiff (Date 2000 1 1 0) (AddDate (Date 2000 1 1 0) 0 13 0) (ModeYears OR ModeMonths))
       \<noteq> 13"
proof -
  have y: "fullYearsDiff (Date 2000 1 1 0) (AddDate (Date 2000 1 1 0) 0 13 0) = 1" by code_simp
  have m: "fullMonthsDiff (AddDate (Date 2000 1 1 0) 1 0 0) (AddDate (Date 2000 1 1 0) 0 13 0) = 1"
    by code_simp
  have "newDiff (Date 2000 1 1 0) (AddDate (Date 2000 1 1 0) 0 13 0) (ModeYears OR ModeMonths)
       = \<lparr>Years = 1, Months = 1, Weeks = 0, Days = 0, rawFormat = [], mode = ModeYears OR ModeMonths\<rparr>"
    by (simp add: newDiff_unfold monthsCount_def afterYears_def y m AddDate_zero
        ModeYears_def ModeMonths_def ModeWeeks_def ModeDays_def monthsInYear_def)
  then show ?thesis by (simp add: ModeYears_def ModeMonths_def)
qed

text \<open>
  The case left out of the amended C2: from 29 February 2000 the end thirteen
  months on is 29 March 2001; the internal year step moves the cursor to
  1 March 2001, from where no whole month fits, and 12 months are reported,
  whereas counting months from the start itself gives 13.
\<close>

lemma months_alone_leap_day:
  "ModeMonths AND ModeYears = 0 \<and> ModeMonths AND ModeMonths \<noteq> 0
   \<and> Month (Date 2000 2 29 0) = 2 \<and> Day (Date 2000 2 29 0) = 29
   \<and> Months (newDiff (Date 2000 2 29 0) (AddDate (Date 2000 2 29 0) 0 13 0) ModeMonths) = 12
   \<and> fullMonthsDiff (Date 2000 2 29 0) (AddDate (Date 2000 2 29 0) 0 13 0) = 13"
proof -
  have y: "fullYearsDiff (Date 2000 2 29 0) (AddDate (Date 2000 2 29 0) 0 13 0) = 1" by code_simp
  have m: "fullMonthsDiff (AddDate (Date 2000 2 29 0) 1 0 0) (AddDate (Date 2000 2 29 0) 0 13 0) = 0"
    by code_simp
  have p: "fullMonthsDiff (Date 2000 2 29 0) (AddDate (Date 2000 2 29 0) 0 13 0) = 13" by code_simp
  have d: "Month (Date 2000 2 29 0) = 2" "Day (Date 2000 2 29 0) = 29" by code_simp+
  show ?thesis
    by (simp add: newDiff_unfold monthsCount_def afterYears_def y m p d
        ModeYears_def ModeMonths_def monthsInYear_def)
qed

text \<open>
  C2, amended. When the end is the start moved on by exactly \<open>n \<ge> 0\<close> units of the
  coarsest selected unit (with \<^verbatim>\<open>AddDate\<close>; a week is seven days), that unit's count
  is \<open>n\<close> and every other count is 0: for years, weeks and days always, for
  months when \<open>n < 12\<close> or the start is not a 29 February.
\<close>

theorem boundary_inclusive_coarsest:
  "0 \<le> n \<Longrightarrow>
     (md AND ModeYears \<noteq> 0 \<longrightarrow>
        newDiff start (AddDate start n 0 0) md
          = \<lparr>Years = n, Months = 0, Weeks = 0, Days = 0, rawFormat = [], mode = md\<rparr>)
   \<and> (md AND ModeYears = 0 \<and> md AND ModeMonths \<noteq> 0
        \<and> (n < 12 \<or> Month start \<noteq> 2 \<or> Day start \<noteq> 29) \<longrightarrow>
        newDiff start (AddDate start 0 n 0) md
          = \<lparr>Years = 0, Months = n, Weeks = 0, Days = 0, rawFormat = [], mode = md\<rparr>)
   \<and> (md AND ModeYears = 0 \<and> md AND ModeMonths = 0 \<and> md AND ModeWeeks \<noteq> 0 \<longrightarrow>
        newDiff start (AddDate start 0 0 (7 * n)) md
          = \<lparr>Years = 0, Months = 0, Weeks = n, Days = 0, rawFormat = [], mode = md\<rparr>)
   \<and> (md AND ModeYears = 0 \<and> md AND ModeMonths = 0 \<and> md AND ModeWeeks = 0
        \<and> md AND ModeDays \<noteq> 0 \<longrightarrow>
        newDiff start (AddDate start 0 0 n) md
          = \<lparr>Years = 0, Months = 0, Weeks = 0, Days = n, rawFormat = [], mode = md\<rparr>)"
proof -
  assume n: "0 \<le> n"
  have years: "newDiff start (AddDate start n 0 0) md
      = \<lparr>Years = n, Months = 0, Weeks = 0, Days = 0, rawFormat = [], mode = md\<rparr>"
    if "md AND ModeYears \<noteq> 0"
  proof -
    define e where "e = AddDate start n 0 0"
    have ay: "afterYears start e md = e"
      using that by (simp add: afterYears_def e_def fullYearsDiff_AddDate_years)
    have mc: "monthsCount start e md = 0"
      using that by (simp add: monthsCount_def ay AddDate_zero fullMonthsDiff_same)
    have am: "afterMonths start e md = e" by (simp add: afterMonths_def ay mc AddDate_zero)
    have aw: "afterWeeks start e md = e"
      by (simp add: afterWeeks_def am fullWeeksDiff_same AddDate_zero)
    show ?thesis
      unfolding e_def[symmetric] newDiff_unfold mc am aw using that
      by (simp add: e_def fullYearsDiff_AddDate_years fullWeeksDiff_same fullDaysDiff_same)
  qed
  have months: "newDiff start (AddDate start 0 n 0) md
      = \<lparr>Years = 0, Months = n, Weeks = 0, Days = 0, rawFormat = [], mode = md\<rparr>"
    if "md AND ModeYears = 0" "md AND ModeMonths \<noteq> 0" "n < 12 \<or> Month start \<noteq> 2 \<or> Day start \<noteq> 29"
  proof -
    define e where "e = AddDate start 0 n 0"
    have ay: "afterYears start e md = start" using that by (simp add: afterYears_def)
    have mc: "monthsCount start e md = n"
      using that(1) months_exact[OF n that(3)]
      by (simp add: monthsCount_def ay[unfolded e_def] e_def monthsInYear_def Let_def)
    have am: "afterMonths start e md = e"
      using that by (simp add: afterMonths_def ay[unfolded e_def] mc[unfolded e_def] e_def)
    have aw: "afterWeeks start e md = e"
      by (simp add: afterWeeks_def am fullWeeksDiff_same AddDate_zero)
    show ?thesis
      unfolding e_def[symmetric] newDiff_unfold mc am aw using that
      by (simp add: fullWeeksDiff_same fullDaysDiff_same)
  qed
  have weeks: "newDiff start (AddDate start 0 0 (7 * n)) md
      = \<lparr>Years = 0, Months = 0, Weeks = n, Days = 0, rawFormat = [], mode = md\<rparr>"
    if "md AND ModeYears = 0" "md AND ModeMonths = 0" "md AND ModeWeeks \<noteq> 0"
  proof -
    define e where "e = AddDate start 0 0 (7 * n)"
    have am: "afterMonths start e md = start" using that by (simp add: afterMonths_def afterYears_def)
    have w: "fullWeeksDiff start e = n" unfolding e_def by (rule weeks_exact[OF n])
    have "AddDate start 0 0 (n * 7) = e" unfolding e_def by (simp add: mult.commute)
    then have aw: "afterWeeks start e md = e"
      using that by (simp add: afterWeeks_def am w daysInWeek_def)
    show ?thesis
      unfolding e_def[symmetric] newDiff_unfold am aw w using that
      by (simp add: fullDaysDiff_same)
  qed
  have days: "newDiff start (AddDate start 0 0 n) md
      = \<lparr>Years = 0, Months = 0, Weeks = 0, Days = n, rawFormat = [], mode = md\<rparr>"
    if "md AND ModeYears = 0" "md AND ModeMonths = 0" "md AND ModeWeeks = 0" "md AND ModeDays \<noteq> 0"
    unfolding newDiff_unfold using that
    by (simp add: afterWeeks_def afterMonths_def afterYears_def days_exact[OF n])
  show ?thesis using years months weeks days by blast
qed

theorem boundary_inclusive_coarsest_witness:
  "(240 :: DiffMode) AND ModeYears \<noteq> 0
   \<and> newDiff (Date 2000 4 17 0) (AddDate (Date 2000 4 17 0) 3 0 0) 240
       = \<lparr>Years = 3, Months = 0, Weeks = 0, Days = 0, rawFormat = [], mode = 240\<rparr>
   \<and> (80 :: DiffMode) AND ModeYears = 0 \<and> (80 :: DiffMode) AND ModeMonths \<noteq> 0
   \<and> Month (Date 2001 1 31 0) \<noteq> 2
   \<and> newDiff (Date 2001 1 31 0) (AddDate (Date 2001 1 31 0) 0 13 0) 80
       = \<lparr>Years = 0, Months = 13, Weeks = 0, Days = 0, rawFormat = [], mode = 80\<rparr>
   \<and> (48 :: DiffMode) AND ModeYears = 0 \<and> (48 :: DiffMode) AND ModeMonths = 0
   \<and> (48 :: DiffMode) AND ModeWeeks \<noteq> 0
   \<and> newDiff (Date 2001 1 31 0) (AddDate (Date 2001 1 31 0) 0 0 (7 * 5)) 48
       = \<lparr>Years = 0, Months = 0, Weeks = 5, Days = 0, rawFormat = [], mode = 48\<rparr>
   \<and> (16 :: DiffMode) AND ModeYears = 0 \<and> (16 :: DiffMode) AND ModeMonths = 0
   \<and> (16 :: DiffMode) AND ModeWeeks = 0 \<and> (16 :: DiffMode) AND ModeDays \<noteq> 0
   \<and> newDiff (Date 2001 1 31 0) (AddDate (Date 2001 1 31 0) 0 0 400) 16
       = \<lparr>Years = 0, Months = 0, Weeks = 0, Days = 400, rawFormat = [], mode = 16\<rparr>"
proof -
  have md: "(240 :: DiffMode) AND ModeYears \<noteq> 0"
    "(80 :: DiffMode) AND ModeYears = 0" "(80 :: DiffMode) AND ModeMonths \<noteq> 0"
    "(48 :: DiffMode) AND ModeYears = 0" "(48 :: DiffMode) AND ModeMonths = 0"
    "(48 :: DiffMode) AND ModeWeeks \<noteq> 0"
    "(16 :: DiffMode) AND ModeYears = 0" "(16 :: DiffMode) AND ModeMonths = 0"
    "(16 :: DiffMode) AND ModeWeeks = 0" "(16 :: DiffMode) AND ModeDays \<noteq> 0"
    by (simp_all add: ModeYears_def ModeMonths_def ModeWeeks_def ModeDays_def)
  have mo: "Month (Date 2001 1 31 0) \<noteq> 2" by code_simp
  show ?thesis
    using boundary_inclusive_coarsest[of 3 240 "Date 2000 4 17 0"]
      boundary_inclusive_coarsest[of 13 80 "Date 2001 1 31 0"]
      boundary_inclusive_coarsest[of 5 48 "Date 2001 1 31 0"]
      boundary_inclusive_coarsest[of 400 16 "Date 2001 1 31 0"]
      md mo
    by simp
qed

subsection \<open>C3\<close>




subsection \<open>C4\<close>

text \<open>
  C4. A format whose last byte is \<^verbatim>\<open>%\<close> yields neither of the two parse errors
  nor a unit set: in \<^verbatim>\<open>"%Y%"\<close> the verb \<^verbatim>\<open>%Y\<close> is recognised and no \<^verbatim>\<open>%\<close> is followed
  by an unknown character, yet the call panics; \<^verbatim>\<open>"%"\<close> has no verb and is not
  reported as an undefined mode. Lemma \<open>unmarshal_dangling_percent\<close> has the
  general case; on every other string the parser does what the claim says
  (\<open>unmarshal_parts\<close>, \<open>unmarshal_unknown_verb\<close>, \<open>format_shapes\<close>).
\<close>

theorem unmarshal_trailing_percent_panics:
  "unmarshal ''%Y%'' = Inl PanicIndexOutOfRange \<and> unmarshal ''%'' \<noteq> Inl ErrUndefinedDiffMode"
  by code_simp

subsection \<open>C5\<close>



subsection \<open>C6\<close>

text \<open>
  C6, as stated, fails. The format \<^verbatim>\<open>"%Y %M  %D"\<close> is valid; with no months the
  verb \<^verbatim>\<open>%M\<close> goes with one of the spaces around it and the two others stay,
  next to each other. In \<^verbatim>\<open>"%M %Y"\<close> the verb \<^verbatim>\<open>%M\<close> has no space before it: it
  is removed alone and the result begins with a space.
\<close>

theorem elision_leaves_double_space:
  "unmarshal ''%Y %M  %D'' = Inr 208
   \<and> format formatUnits \<lparr>Years = 10, Months = 0, Weeks = 0, Days = 29, rawFormat = [], mode = 208\<rparr>
        ''%Y %M  %D'' = ''10 years  29 days''
   \<and> unmarshal ''%M %Y'' = Inr 192
   \<and> format formatUnits \<lparr>Years = 10, Months = 0, Weeks = 0, Days = 0, rawFormat = [], mode = 192\<rparr>
        ''%M %Y'' = '' 10 years''"
  by code_simp

text \<open>
  Why the amended C6 asks that no verb directly follows another: once \<^verbatim>\<open>%M\<close> has
  gone from \<^verbatim>\<open>"a  %M%Y"\<close> together with a space, the verb \<^verbatim>\<open>%Y\<close> stands behind the
  other space and takes it along, if it is visited after \<^verbatim>\<open>%M\<close>; visited before
  \<^verbatim>\<open>%M\<close>, it is removed alone. The result depends on the order of the map
  iteration.
\<close>

lemma elision_depends_on_order:
  "iterationOrder formatUnits \<and> iterationOrder (rev formatUnits)
   \<and> unmarshal ''a  %M%Y'' = Inr 192
   \<and> format formatUnits \<lparr>Years = 0, Months = 0, Weeks = 0, Days = 0, rawFormat = [], mode = 192\<rparr>
        ''a  %M%Y'' = ''a ''
   \<and> format (rev formatUnits) \<lparr>Years = 0, Months = 0, Weeks = 0, Days = 0, rawFormat = [], mode = 192\<rparr>
        ''a  %M%Y'' = ''a''"
proof -
  have "distinct formatUnits" unfolding formatUnits_def by simp
  then have "iterationOrder formatUnits" "iterationOrder (rev formatUnits)"
    unfolding iterationOrder_def by simp_all
  moreover have "unmarshal ''a  %M%Y'' = Inr 192" by code_simp
  moreover have "format formatUnits \<lparr>Years = 0, Months = 0, Weeks = 0, Days = 0, rawFormat = [], mode = 192\<rparr>
        ''a  %M%Y'' = ''a ''" by code_simp
  moreover have "format (rev formatUnits) \<lparr>Years = 0, Months = 0, Weeks = 0, Days = 0, rawFormat = [], mode = 192\<rparr>
        ''a  %M%Y'' = ''a''" by code_simp
  ultimately show ?thesis by simp
qed

text \<open>
  C6, amended. Take a format made of pieces of literal text (free of \<^verbatim>\<open>%\<close>), each
  followed by a recognised verb, and a last piece of literal text, and any order
  of the map iteration. Rendering with zeros replaces every verb by its number or
  counted noun, zeros included. If no verb directly follows another verb,
  rendering without zeros replaces the verbs whose count is not 0 in the same way
  and removes each verb whose count is 0 together with the space directly before
  it, when there is one, and with nothing else. Every format that \<^verbatim>\<open>unmarshal\<close>
  accepts is made of such parts.
\<close>

theorem rendering_by_parts:
  "iterationOrder order \<Longrightarrow>
     (wellFormed items rest \<longrightarrow>
        formatWithZeros order d (formatOf items rest) = specRender d False items rest
        \<and> (noVerbAfterVerb items \<longrightarrow>
             format order d (formatOf items rest) = specRender d True items rest))
     \<and> (unmarshal raw = Inr md \<longrightarrow>
          (\<exists>items rest. items \<noteq> [] \<and> wellFormed items rest \<and> raw = formatOf items rest))"
proof -
  assume o: "iterationOrder order"
  have sub: "set order \<subseteq> set formatUnits" using o by (simp add: iterationOrder_def)
  have "formatWithZeros order d (formatOf items rest) = specRender d False items rest
      \<and> (noVerbAfterVerb items \<longrightarrow>
           format order d (formatOf items rest) = specRender d True items rest)"
    if wf: "wellFormed items rest"
  proof -
    from wf have w: "list_all (\<lambda>(lit, c). CHR ''%'' \<notin> set lit \<and> c \<in> set verbLetters) items"
        "CHR ''%'' \<notin> set rest"
      by (simp_all add: wellFormed_def)
    have "snd ` set items \<subseteq> set verbLetters"
      using w(1) by (auto simp: list_all_iff)
    then have all: "snd ` set items \<subseteq> {} \<union> lettersOf order"
      using lettersOf_order[OF o] by auto
    have "formatWithZeros order d (formatOf items rest) = specRender d False items rest"
      unfolding formatWithZeros_def
      using frmt_partRender[OF w _ sub, of False d "{}"] partRender_all[OF all, of d False rest]
      by (simp add: partRender_empty)
    moreover have "format order d (formatOf items rest) = specRender d True items rest"
      if "noVerbAfterVerb items"
      unfolding format_def
      using frmt_partRender[OF w _ sub, of True d "{}"] partRender_all[OF all, of d True rest] that
      by (simp add: partRender_empty noVerbAfterVerb_def)
    ultimately show ?thesis by simp
  qed
  moreover have "\<exists>items rest. items \<noteq> [] \<and> wellFormed items rest \<and> raw = formatOf items rest"
    if "unmarshal raw = Inr md"
    using valid_format_parts[OF that] by blast
  ultimately show ?thesis by blast
qed

theorem rendering_by_parts_witness:
  "wellFormed [([], CHR ''Y''), ('' '', CHR ''M''), ('' '', CHR ''D'')] []
   \<and> iterationOrder formatUnits
   \<and> noVerbAfterVerb [([], CHR ''Y''), ('' '', CHR ''M''), ('' '', CHR ''D'')]
   \<and> formatOf [([], CHR ''Y''), ('' '', CHR ''M''), ('' '', CHR ''D'')] [] = ''%Y %M %D''
   \<and> formatWithZeros formatUnits
        \<lparr>Years = 10, Months = 0, Weeks = 0, Days = 29, rawFormat = [], mode = 208\<rparr> ''%Y %M %D''
       = ''10 years 0 months 29 days''
   \<and> format formatUnits
        \<lparr>Years = 10, Months = 0, Weeks = 0, Days = 29, rawFormat = [], mode = 208\<rparr> ''%Y %M %D''
       = ''10 years 29 days''"
proof -
  let ?items = "[([], CHR ''Y''), ('' '', CHR ''M''), ('' '', CHR ''D'')]"
  let ?d = "\<lparr>Years = 10, Months = 0, Weeks = 0, Days = 29, rawFormat = [], mode = 208\<rparr>"
  have w: "wellFormed ?items []" by (simp add: wellFormed_def verbLetters_def)
  have "distinct formatUnits" unfolding formatUnits_def by simp
  then have o: "iterationOrder formatUnits" unfolding iterationOrder_def by simp
  have a: "noVerbAfterVerb ?items" by (simp add: noVerbAfterVerb_def)
  have f: "formatOf ?items [] = ''%Y %M %D''" by (simp add: formatOf_def)
  have s0: "specRender ?d False ?items [] = ''10 years 0 months 29 days''" by code_simp
  have s1: "specRender ?d True ?items [] = ''10 years 29 days''" by code_simp
  show ?thesis
    using rendering_by_parts[OF o, of ?items "[]" ?d] w o a f s0 s1 by simp
qed

subsection \<open>C7\<close>

text \<open>
  C7. Replacing a verb by a count \<open>n\<close>: the leftmost occurrence of an upper-case
  verb becomes the number, a space and the unit's noun, with an \<^verbatim>\<open>s\<close> appended
  unless \<open>n = 1\<close>; that of a lower-case verb becomes the bare number. The
  occurrences after it are replaced in the same way.
\<close>

theorem verb_rendering:
  "(verb, unit) \<in> set formatUnits \<Longrightarrow> CHR ''%'' \<notin> set pre \<Longrightarrow>
     verbReplace (pre @ verb @ post) n verb unit
       = pre
         @ (if verb \<in> {''%Y'', ''%M'', ''%W'', ''%D''}
            then Itoa n @ '' '' @ unit @ (if n = 1 then [] else ''s'')
            else Itoa n)
         @ verbReplace post n verb unit"
proof -
  assume v: "(verb, unit) \<in> set formatUnits" and p: "CHR ''%'' \<notin> set pre"
  from v have ne: "verb \<noteq> []" and h: "hd verb = CHR ''%''"
    and u: "IsUpper (verb ! 1) \<longleftrightarrow> verb \<in> {''%Y'', ''%M'', ''%W'', ''%D''}"
    unfolding formatUnits_def IsUpper_def by auto
  have "ReplaceAll (pre @ verb @ post) verb r = pre @ r @ ReplaceAll post verb r" for r
    using ReplaceAll_skip[OF ne, of pre "verb @ post" r] ReplaceAll_match[OF ne, of post r] h p
    by simp
  then show ?thesis
    unfolding verbReplace_def Let_def formatNoun_def u by simp
qed

theorem verb_rendering_witness:
  "(''%M'', ''month'') \<in> set formatUnits \<and> (''%d'', ''day'') \<in> set formatUnits
   \<and> CHR ''%'' \<notin> set ''10 years ''
   \<and> verbReplace ''10 years %M'' 1 ''%M'' ''month'' = ''10 years 1 month''
   \<and> verbReplace ''10 years %M'' 0 ''%M'' ''month'' = ''10 years 0 months''
   \<and> verbReplace ''10 years %M'' 29 ''%M'' ''month'' = ''10 years 29 months''
   \<and> verbReplace ''10 years %d'' 29 ''%d'' ''day'' = ''10 years 29''"
proof -
  have m: "(''%M'', ''month'') \<in> set formatUnits" and d: "(''%d'', ''day'') \<in> set formatUnits"
    by (simp_all add: formatUnits_def)
  have p: "CHR ''%'' \<notin> set ''10 years ''" by simp
  have i: "Itoa 1 = ''1''" "Itoa 0 = ''0''" "Itoa 29 = ''29''" by code_simp+
  have e: "verbReplace [] n v u = []" if "v \<noteq> []" for n v u
    using that by (simp add: verbReplace_def ReplaceAll_Nil)
  show ?thesis
    using verb_rendering[OF m p, of "[]" 1] verb_rendering[OF m p, of "[]" 0]
      verb_rendering[OF m p, of "[]" 29] verb_rendering[OF d p, of "[]" 29] m d
    by (simp add: i e)
qed

subsection \<open>C8\<close>

text \<open>
  C8. \<^verbatim>\<open>Equal\<close> holds exactly when the four counts agree; the stored format and
  mode play no part, so two differences of the same dates built from formats
  that select the same units are equal.
\<close>

theorem Equal_ignores_format:
  "(EqualDiff d other \<longleftrightarrow>
      Years d = Years other \<and> Months d = Months other \<and> Weeks d = Weeks other \<and> Days d = Days other)
   \<and> EqualDiff (d\<lparr>rawFormat := f, mode := md\<rparr>) (other\<lparr>rawFormat := f', mode := md'\<rparr>)
       = EqualDiff d other
   \<and> (\<forall>d1 d2. NewDiff start e f1 = Inr d1 \<and> NewDiff start e f2 = Inr d2
          \<and> unmarshal f1 = unmarshal f2 \<longrightarrow> EqualDiff d1 d2)"
  unfolding EqualDiff_def NewDiff_def by (auto split: if_splits sum.splits)

theorem Equal_ignores_format_witness:
  "NewDiff (Date 2000 10 1 0) (Date 2000 10 30 0) ''%Y %M %D''
     = Inr ((newDiff (Date 2000 10 1 0) (Date 2000 10 30 0) 208)\<lparr>rawFormat := ''%Y %M %D''\<rparr>)
   \<and> NewDiff (Date 2000 10 1 0) (Date 2000 10 30 0) ''%d days, %m months, %y years''
     = Inr ((newDiff (Date 2000 10 1 0) (Date 2000 10 30 0) 208)
              \<lparr>rawFormat := ''%d days, %m months, %y years''\<rparr>)
   \<and> unmarshal ''%Y %M %D'' = unmarshal ''%d days, %m months, %y years''
   \<and> EqualDiff ((newDiff (Date 2000 10 1 0) (Date 2000 10 30 0) 208)\<lparr>rawFormat := ''%Y %M %D''\<rparr>)
        ((newDiff (Date 2000 10 1 0) (Date 2000 10 30 0) 208)
              \<lparr>rawFormat := ''%d days, %m months, %y years''\<rparr>)"
proof -
  have a: "\<not> After (Date 2000 10 1 0) (Date 2000 10 30 0)" by code_simp
  have u1: "unmarshal ''%Y %M %D'' = Inr 208" by code_simp
  have u2: "unmarshal ''%d days, %m months, %y years'' = Inr 208" by code_simp
  have n1: "NewDiff (Date 2000 10 1 0) (Date 2000 10 30 0) ''%Y %M %D''
     = Inr ((newDiff (Date 2000 10 1 0) (Date 2000 10 30 0) 208)\<lparr>rawFormat := ''%Y %M %D''\<rparr>)"
    unfolding NewDiff_def using a u1 by simp
  have n2: "NewDiff (Date 2000 10 1 0) (Date 2000 10 30 0) ''%d days, %m months, %y years''
     = Inr ((newDiff (Date 2000 10 1 0) (Date 2000 10 30 0) 208)
              \<lparr>rawFormat := ''%d days, %m months, %y years''\<rparr>)"
    unfolding NewDiff_def using a u2 by simp
  note T = Equal_ignores_format[where start = "Date 2000 10 1 0" and e = "Date 2000 10 30 0"
      and ?f1.0 = "''%Y %M %D''" and ?f2.0 = "''%d days, %m months, %y years''",
      THEN conjunct2, THEN conjunct2, rule_format]
  have "EqualDiff ((newDiff (Date 2000 10 1 0) (Date 2000 10 30 0) 208)\<lparr>rawFormat := ''%Y %M %D''\<rparr>)
        ((newDiff (Date 2000 10 1 0) (Date 2000 10 30 0) 208)
              \<lparr>rawFormat := ''%d days, %m months, %y years''\<rparr>)"
    by (rule T) (simp add: n1 n2 u1 u2)
  then show ?thesis using n1 n2 u1 u2 by simp
qed

subsection \<open>C9\<close>

text \<open>
  C9. Parsing is not total: on the string \<^verbatim>\<open>"%"\<close> the loop steps past the \<^verbatim>\<open>%\<close>
  and reads \<^verbatim>\<open>rawFormat[1]\<close> of a string of length 1, which panics.
\<close>

theorem unmarshal_lone_percent_panics:
  "unmarshal ''%'' = Inl PanicIndexOutOfRange"
  by code_simp

subsection \<open>C10\<close>

text \<open>
  C10. With start not after end, \<^verbatim>\<open>NewDiffWithMode\<close> accepts the empty mode 0 and
  returns a difference whose four counts are zero, whereas no format string
  parses to mode 0, so \<^verbatim>\<open>NewDiff\<close> never returns a difference of that mode.
\<close>

theorem empty_mode_succeeds:
  "\<not> After start e \<Longrightarrow>
     NewDiffWithMode start e 0
       = Inr \<lparr>Years = 0, Months = 0, Weeks = 0, Days = 0, rawFormat = [], mode = 0\<rparr>
     \<and> unmarshal rawFmt \<noteq> Inr 0
     \<and> (\<forall>d. NewDiff start e rawFmt = Inr d \<longrightarrow> mode d \<noteq> 0)"
proof -
  assume a: "\<not> After start e"
  have "unmarshal rawFmt \<noteq> Inr 0" unfolding unmarshal_def by (auto split: sum.splits)
  then show ?thesis
    using a unfolding NewDiffWithMode_def NewDiff_def newDiff_unfold
    by (auto split: sum.splits)
qed

theorem empty_mode_succeeds_witness:
  "\<not> After (Date 2000 4 17 0) (Date 2003 3 16 0)
   \<and> NewDiffWithMode (Date 2000 4 17 0) (Date 2003 3 16 0) 0
       = Inr \<lparr>Years = 0, Months = 0, Weeks = 0, Days = 0, rawFormat = [], mode = 0\<rparr>
   \<and> NewDiff (Date 2000 4 17 0) (Date 2003 3 16 0) ''no verbs'' = Inl ErrUndefinedDiffMode"
proof -
  have a: "\<not> After (Date 2000 4 17 0) (Date 2003 3 16 0)" by code_simp
  have u: "unmarshal ''no verbs'' = Inl ErrUndefinedDiffMode" by code_simp
  show ?thesis
    using empty_mode_succeeds[OF a, of "''no verbs''"] a u by (simp add: NewDiff_def)
qed

end
